theory Spec2Isabelle
  imports Complex_Main "HOL-Library.Product_Lexorder"
begin

section \<open>Data model\<close>

text \<open>
  A cell is a pair of integer coordinates.  A level is the dictionary the searches receive.
  The module that loads it, \<open>p1_support\<close>, is not part of the sources, so the three entries
  are typed the way \<open>navigation_edges\<close> reads them: \<open>walls\<close> is tested with \<open>in\<close>,
  \<open>spaces\<close> and \<open>waypoints\<close> are looked up with \<open>.get(cell)\<close> and the value found is used
  as a weight.  Python floats are idealised as real numbers, so sums and comparisons are exact;
  \<open>sqrt(2)\<close> is \<open>sqrt 2\<close>.  \<open>TypeError\<close> is what adding \<open>None\<close> to a number raises,
  \<open>KeyError\<close> what \<open>tracking[node]\<close> raises for a cell that is not tracked.
\<close>

type_synonym cell = "int \<times> int"

datatype error = TypeError | KeyError

record level =
  walls :: "cell set"
  spaces :: "cell \<rightharpoonup> real"
  waypoints :: "cell \<rightharpoonup> real"

section \<open>Grid adjacency: \<open>navigation_edges\<close>\<close>

text \<open>\<open>spaces.get(cell)\<close>, and \<open>wayp.get(cell)\<close> when that is \<open>None\<close>.\<close>

definition weight :: "level \<Rightarrow> cell \<Rightarrow> real option" where
  "weight lv c = (case spaces lv c of None \<Rightarrow> waypoints lv c | Some w \<Rightarrow> Some w)"

definition diag :: real where
  "diag = sqrt 2"

definition adj_offsets :: "(cell \<times> real) list" where
  "adj_offsets =
     [((-1, -1), diag), ((-1, 0), 1), ((0, -1), 1), ((-1, 1), diag),
      ((1, -1), diag), ((1, 0), 1), ((0, 1), 1), ((1, 1), diag)]"

definition adj_points :: "cell \<Rightarrow> (cell \<times> real) list" where
  "adj_points c = map (\<lambda>((x, y), w). ((x + fst c, y + snd c), w)) adj_offsets"

text \<open>
  The \<open>for point, dist in adj_points\<close> loop (\<open>dist\<close> is written \<open>dst\<close>).  Adding \<open>None\<close> to a float raises
  \<open>TypeError\<close>, which ends the call.
\<close>

fun edges_loop ::
  "level \<Rightarrow> real option \<Rightarrow> (cell \<times> real) list \<Rightarrow> (real \<times> cell) list \<Rightarrow> error + (real \<times> cell) list"
where
  "edges_loop lv weig [] result = Inr result"
| "edges_loop lv weig ((point, dst) # rest) result =
     (if point \<in> walls lv then edges_loop lv weig rest result
      else (case weight lv point of
              None \<Rightarrow> Inl TypeError
            | Some point_weight \<Rightarrow>
                (case weig of
                   None \<Rightarrow> Inl TypeError
                 | Some w \<Rightarrow>
                     edges_loop lv weig rest (result @ [(dst * (point_weight + w) / 2, point)]))))"

definition navigation_edges :: "level \<Rightarrow> cell \<Rightarrow> error + (real \<times> cell) list" where
  "navigation_edges lv c =
     (if c \<in> walls lv then Inr [] else edges_loop lv (weight lv c) (adj_points c) [])"

section \<open>The priority queue\<close>

text \<open>
  \<open>heapq\<close> keeps a list of \<open>(cost, cell)\<close> tuples; \<open>heappop\<close> removes and returns the
  least tuple in Python's lexicographic tuple order.  Only that is modelled, not the array
  layout of the binary heap.  Both loops call \<open>heappop\<close> after the test \<open>while queue\<close>,
  so never on an empty list.
\<close>

type_synonym queue = "(real \<times> cell) list"

definition heappush :: "queue \<Rightarrow> real \<times> cell \<Rightarrow> queue" where
  "heappush q x = x # q"

definition heappop :: "queue \<Rightarrow> (real \<times> cell) \<times> queue" where
  "heappop q = (let m = fold min (tl q) (hd q) in (m, remove1 m q))"

section \<open>Single-destination search\<close>

type_synonym tracking = "cell \<rightharpoonup> (real \<times> cell option)"

text \<open>The \<open>for cost, node in adj(graph, currNode)\<close> loop of \<open>dijkstras_shortest_path\<close>.\<close>

fun relax :: "cell \<Rightarrow> (real \<times> cell) list \<Rightarrow> tracking \<Rightarrow> queue \<Rightarrow> error + (tracking \<times> queue)" where
  "relax currNode [] tracking queue = Inr (tracking, queue)"
| "relax currNode ((cost, node) # rest) tracking queue =
     (case tracking currNode of
        None \<Rightarrow> Inl KeyError
      | Some cur \<Rightarrow>
          (let pathcost = cost + fst cur in
           (case tracking node of
              None \<Rightarrow>
                relax currNode rest (tracking(node \<mapsto> (pathcost, Some currNode)))
                  (heappush queue (pathcost, node))
            | Some old \<Rightarrow>
                if pathcost < fst old
                then relax currNode rest (tracking(node \<mapsto> (pathcost, Some currNode)))
                       (heappush queue (pathcost, node))
                else relax currNode rest tracking queue)))"

text \<open>
  The inner \<open>while tracking[currNode][1]\<close> loop.  A predecessor is a 2-tuple, which is
  always truthy, so the loop stops exactly at the entry whose predecessor is \<open>None\<close>.
  The list is returned as collected, without being reversed.
\<close>

partial_function (option) reconstruct ::
  "tracking \<Rightarrow> cell \<Rightarrow> cell list \<Rightarrow> (error + cell list) option"
where
  "reconstruct tracking currNode shortest_path =
     (case tracking currNode of
        None \<Rightarrow> Some (Inl KeyError)
      | Some cur \<Rightarrow>
          (case snd cur of
             Some prev \<Rightarrow> reconstruct tracking prev (shortest_path @ [currNode])
           | None \<Rightarrow> Some (Inr (shortest_path @ [currNode]))))"

text \<open>
  The \<open>while queue\<close> loop.  The outer \<open>option\<close> is \<open>None\<close> when the loop never returns;
  \<open>Inl\<close> is a raised exception, \<open>Inr None\<close> is Python's \<open>None\<close>.
\<close>

partial_function (option) dsp_loop ::
  "('g \<Rightarrow> cell \<Rightarrow> error + (real \<times> cell) list) \<Rightarrow> 'g \<Rightarrow> cell \<Rightarrow> tracking \<Rightarrow> queue
     \<Rightarrow> (error + cell list option) option"
where
  "dsp_loop adj graph destination tracking queue =
     (if queue = [] then Some (Inr None)
      else
        (let currNode = snd (fst (heappop queue)); queue1 = snd (heappop queue) in
         if currNode = destination
         then map_option (map_sum id Some) (reconstruct tracking currNode [])
         else
           (case adj graph currNode of
              Inl e \<Rightarrow> Some (Inl e)
            | Inr es \<Rightarrow>
                (case relax currNode es tracking queue1 of
                   Inl e \<Rightarrow> Some (Inl e)
                 | Inr tq \<Rightarrow> dsp_loop adj graph destination (fst tq) (snd tq)))))"

definition dijkstras_shortest_path ::
  "cell \<Rightarrow> cell \<Rightarrow> 'g \<Rightarrow> ('g \<Rightarrow> cell \<Rightarrow> error + (real \<times> cell) list)
     \<Rightarrow> (error + cell list option) option"
where
  "dijkstras_shortest_path initial_position destination graph adj =
     dsp_loop adj graph destination [initial_position \<mapsto> (0, None)] [(0, initial_position)]"

section \<open>Cost table to every reachable cell\<close>

type_synonym costs = "cell \<rightharpoonup> real"

text \<open>
  The same two loops in \<open>dijkstras_shortest_path_to_all\<close>: \<open>tracking\<close> holds the cost
  alone, no destination is tested, and the table is returned when the queue is empty.
\<close>

fun relax_all :: "cell \<Rightarrow> (real \<times> cell) list \<Rightarrow> costs \<Rightarrow> queue \<Rightarrow> error + (costs \<times> queue)" where
  "relax_all currNode [] tracking queue = Inr (tracking, queue)"
| "relax_all currNode ((cost, node) # rest) tracking queue =
     (case tracking currNode of
        None \<Rightarrow> Inl KeyError
      | Some cur \<Rightarrow>
          (let pathcost = cost + cur in
           (case tracking node of
              None \<Rightarrow>
                relax_all currNode rest (tracking(node \<mapsto> pathcost))
                  (heappush queue (pathcost, node))
            | Some old \<Rightarrow>
                if pathcost < old
                then relax_all currNode rest (tracking(node \<mapsto> pathcost))
                       (heappush queue (pathcost, node))
                else relax_all currNode rest tracking queue)))"

partial_function (option) dsa_loop ::
  "('g \<Rightarrow> cell \<Rightarrow> error + (real \<times> cell) list) \<Rightarrow> 'g \<Rightarrow> costs \<Rightarrow> queue \<Rightarrow> (error + costs) option"
where
  "dsa_loop adj graph tracking queue =
     (if queue = [] then Some (Inr tracking)
      else
        (let currNode = snd (fst (heappop queue)); queue1 = snd (heappop queue) in
         (case adj graph currNode of
            Inl e \<Rightarrow> Some (Inl e)
          | Inr es \<Rightarrow>
              (case relax_all currNode es tracking queue1 of
                 Inl e \<Rightarrow> Some (Inl e)
               | Inr tq \<Rightarrow> dsa_loop adj graph (fst tq) (snd tq)))))"

definition dijkstras_shortest_path_to_all ::
  "cell \<Rightarrow> 'g \<Rightarrow> ('g \<Rightarrow> cell \<Rightarrow> error + (real \<times> cell) list) \<Rightarrow> (error + costs) option"
where
  "dijkstras_shortest_path_to_all initial_position graph adj =
     dsa_loop adj graph [initial_position \<mapsto> 0] [(0, initial_position)]"

section \<open>Paths and their cost\<close>

text \<open>
  The edges an adjacency function yields at a cell (none when it raises), the cost of the first
  edge it lists from \<open>u\<close> to \<open>v\<close>, and the summed edge cost of a list of cells.  A list
  that is empty or has a step that is not an edge has no cost.
\<close>

definition edges :: "('g \<Rightarrow> cell \<Rightarrow> error + (real \<times> cell) list) \<Rightarrow> 'g \<Rightarrow> cell \<Rightarrow> (real \<times> cell) set" where
  "edges adj g u = (case adj g u of Inl e \<Rightarrow> {} | Inr es \<Rightarrow> set es)"

definition edge_cost ::
  "('g \<Rightarrow> cell \<Rightarrow> error + (real \<times> cell) list) \<Rightarrow> 'g \<Rightarrow> cell \<Rightarrow> cell \<Rightarrow> real option"
where
  "edge_cost adj g u v =
     (case adj g u of Inl e \<Rightarrow> None | Inr es \<Rightarrow> map_option fst (find (\<lambda>e. snd e = v) es))"

fun path_cost ::
  "('g \<Rightarrow> cell \<Rightarrow> error + (real \<times> cell) list) \<Rightarrow> 'g \<Rightarrow> cell list \<Rightarrow> real option"
where
  "path_cost adj g [] = None"
| "path_cost adj g [u] = Some 0"
| "path_cost adj g (u # v # rest) =
     (case edge_cost adj g u v of
        None \<Rightarrow> None
      | Some c \<Rightarrow> (case path_cost adj g (v # rest) of None \<Rightarrow> None | Some k \<Rightarrow> Some (c + k)))"

text \<open>\<open>walk adj g s ns c\<close>: the cells \<open>ns\<close> start at \<open>s\<close>, each step is an edge, and the edge costs sum to \<open>c\<close>.\<close>

inductive walk ::
  "('g \<Rightarrow> cell \<Rightarrow> error + (real \<times> cell) list) \<Rightarrow> 'g \<Rightarrow> cell \<Rightarrow> cell list \<Rightarrow> real \<Rightarrow> bool"
  for adj :: "'g \<Rightarrow> cell \<Rightarrow> error + (real \<times> cell) list" and g :: 'g and s :: cell
where
  walk_start: "walk adj g s [s] 0"
| walk_step: "walk adj g s ns c \<Longrightarrow> (e, w) \<in> edges adj g (last ns) \<Longrightarrow> walk adj g s (ns @ [w]) (c + e)"

section \<open>Invariants of the two searches\<close>

text \<open>
  The facts below describe a cost table \<open>M\<close> and a queue \<open>Q\<close> between two iterations of
  the main loop.  An entry of the queue is sound when its cell is tracked at no more than the
  entry's cost.  A cell is relaxed when every edge out of it has been taken into account.
\<close>

definition queue_sound :: "costs \<Rightarrow> queue \<Rightarrow> bool" where
  "queue_sound M Q \<longleftrightarrow> (\<forall>c v. (c, v) \<in> set Q \<longrightarrow> (\<exists>cv. M v = Some cv \<and> cv \<le> c))"

definition relaxed ::
  "('g \<Rightarrow> cell \<Rightarrow> error + (real \<times> cell) list) \<Rightarrow> 'g \<Rightarrow> costs \<Rightarrow> cell \<Rightarrow> bool"
where
  "relaxed adj g M v \<longleftrightarrow>
     (\<exists>cv es. M v = Some cv \<and> adj g v = Inr es \<and>
        (\<forall>e w. (e, w) \<in> set es \<longrightarrow> (\<exists>cw. M w = Some cw \<and> cw \<le> cv + e)))"

definition closed_inv ::
  "('g \<Rightarrow> cell \<Rightarrow> error + (real \<times> cell) list) \<Rightarrow> 'g \<Rightarrow> costs \<Rightarrow> queue \<Rightarrow> bool"
where
  "closed_inv adj g M Q \<longleftrightarrow> (\<forall>v cv. M v = Some cv \<longrightarrow> (cv, v) \<in> set Q \<or> relaxed adj g M v)"

definition witness_inv ::
  "('g \<Rightarrow> cell \<Rightarrow> error + (real \<times> cell) list) \<Rightarrow> 'g \<Rightarrow> cell \<Rightarrow> costs \<Rightarrow> bool"
where
  "witness_inv adj g s M \<longleftrightarrow> (\<forall>v cv. M v = Some cv \<longrightarrow> (\<exists>ns. walk adj g s ns cv \<and> last ns = v))"

definition start_inv :: "cell \<Rightarrow> costs \<Rightarrow> bool" where
  "start_inv s M \<longleftrightarrow> (\<exists>c0. M s = Some c0 \<and> c0 \<le> 0)"

definition basic_inv ::
  "('g \<Rightarrow> cell \<Rightarrow> error + (real \<times> cell) list) \<Rightarrow> 'g \<Rightarrow> cell \<Rightarrow> costs \<Rightarrow> queue \<Rightarrow> bool"
where
  "basic_inv adj g s M Q \<longleftrightarrow>
     closed_inv adj g M Q \<and> witness_inv adj g s M \<and> start_inv s M \<and> finite (dom M)"

text \<open>
  The facts that need edge costs to be non-negative.  \<open>good adj g N\<close>: the finite set \<open>N\<close> of
  cells is closed under the adjacency function, which raises nowhere on \<open>N\<close> and yields no
  negative cost there.  A tracked cell is settled when the queue no longer holds the entry
  for its current cost.
\<close>

definition costs_of :: "tracking \<Rightarrow> costs" where
  "costs_of T = (\<lambda>v. map_option fst (T v))"

definition settled :: "costs \<Rightarrow> queue \<Rightarrow> cell \<Rightarrow> bool" where
  "settled M Q v \<longleftrightarrow> (\<exists>cv. M v = Some cv \<and> (cv, v) \<notin> set Q)"

definition good ::
  "('g \<Rightarrow> cell \<Rightarrow> error + (real \<times> cell) list) \<Rightarrow> 'g \<Rightarrow> cell set \<Rightarrow> bool"
where
  "good adj g N \<longleftrightarrow>
     finite N \<and>
     (\<forall>u \<in> N. \<exists>es. adj g u = Inr es \<and> (\<forall>e w. (e, w) \<in> set es \<longrightarrow> w \<in> N \<and> 0 \<le> e))"

definition outer_inv :: "cell set \<Rightarrow> costs \<Rightarrow> queue \<Rightarrow> bool" where
  "outer_inv N M Q \<longleftrightarrow>
     dom M \<subseteq> N \<and> queue_sound M Q \<and> distinct Q \<and>
     (\<forall>v cv c w. M v = Some cv \<longrightarrow> (cv, v) \<notin> set Q \<longrightarrow> (c, w) \<in> set Q \<longrightarrow> cv \<le> c)"

definition inner_inv :: "cell set \<Rightarrow> cell \<Rightarrow> real \<Rightarrow> cell set \<Rightarrow> costs \<Rightarrow> queue \<Rightarrow> bool" where
  "inner_inv N u c S M Q \<longleftrightarrow>
     dom M \<subseteq> N \<and> queue_sound M Q \<and> distinct Q \<and> M u = Some c \<and>
     (\<forall>c' w. (c', w) \<in> set Q \<longrightarrow> c \<le> c') \<and> (c, u) \<notin> set Q \<and>
     (\<forall>v cv. M v = Some cv \<longrightarrow> (cv, v) \<notin> set Q \<longrightarrow> cv \<le> c) \<and>
     (\<forall>v \<in> S. settled M Q v)"

definition unsettled :: "cell set \<Rightarrow> costs \<Rightarrow> queue \<Rightarrow> cell set" where
  "unsettled N M Q = {v \<in> N. \<not> settled M Q v}"

text \<open>The order in which the main loops terminate: fewer unsettled cells, or a shorter queue.\<close>

definition search_rel :: "cell set \<Rightarrow> ((costs \<times> queue) \<times> (costs \<times> queue)) set" where
  "search_rel N =
     inv_image (less_than <*lex*> less_than) (\<lambda>(M, Q). (card (unsettled N M Q), length Q))"

text \<open>
  The predecessor links.  \<open>chain T v ps\<close>: following the links of \<open>T\<close> from \<open>v\<close> visits the
  cells \<open>ps\<close> and ends at the entry without predecessor.
\<close>

inductive chain :: "tracking \<Rightarrow> cell \<Rightarrow> cell list \<Rightarrow> bool" for T :: tracking where
  chain_root: "T v = Some (c, None) \<Longrightarrow> chain T v [v]"
| chain_link: "T v = Some (c, Some p) \<Longrightarrow> chain T p ps \<Longrightarrow> chain T v (v # ps)"

definition pred_inv ::
  "('g \<Rightarrow> cell \<Rightarrow> error + (real \<times> cell) list) \<Rightarrow> 'g \<Rightarrow> cell \<Rightarrow> tracking \<Rightarrow> queue \<Rightarrow> bool"
where
  "pred_inv adj g s T Q \<longleftrightarrow>
     (\<forall>v c p. T v = Some (c, Some p) \<longrightarrow>
        settled (costs_of T) Q p \<and>
        (\<exists>cp e. costs_of T p = Some cp \<and> (e, v) \<in> edges adj g p \<and> cp + e \<le> c)) \<and>
     (\<forall>v c. T v = Some (c, None) \<longrightarrow> v = s \<and> c = 0) \<and>
     (\<forall>v. T v \<noteq> None \<longrightarrow> (\<exists>ps. chain T v ps))"

definition dest_inv :: "cell \<Rightarrow> tracking \<Rightarrow> queue \<Rightarrow> bool" where
  "dest_inv d T Q \<longleftrightarrow> (T d \<noteq> None \<longrightarrow> (\<exists>c. (c, d) \<in> set Q))"

definition shortest_walk ::
  "('g \<Rightarrow> cell \<Rightarrow> error + (real \<times> cell) list) \<Rightarrow> 'g \<Rightarrow> cell \<Rightarrow> cell \<Rightarrow> cell list \<Rightarrow> real \<Rightarrow> bool"
where
  "shortest_walk adj g s d ns k \<longleftrightarrow>
     walk adj g s ns k \<and> last ns = d \<and>
     (\<forall>ns' k'. walk adj g s ns' k' \<longrightarrow> last ns' = d \<longrightarrow> k \<le> k')"

section \<open>Well-formed levels\<close>

text \<open>
  A level is well formed when its weight tables are finite, every weight is positive, and every
  neighbour of a weighted cell outside the walls is a wall or has a weight.  The last condition
  holds in particular when every cell outside the walls has a weight; it is the form a finite
  level file can meet, with a ring of walls around the field.
\<close>

definition wf_grid :: "level \<Rightarrow> bool" where
  "wf_grid lv \<longleftrightarrow>
     finite (dom (spaces lv)) \<and> finite (dom (waypoints lv)) \<and>
     (\<forall>c w. weight lv c = Some w \<longrightarrow> 0 < w) \<and>
     (\<forall>c p d. c \<notin> walls lv \<longrightarrow> weight lv c \<noteq> None \<longrightarrow> (p, d) \<in> set (adj_points c) \<longrightarrow>
        p \<in> walls lv \<or> weight lv p \<noteq> None)"

text \<open>The cells a search from \<open>s\<close> can touch in a well-formed level.\<close>

definition grid_cells :: "level \<Rightarrow> cell \<Rightarrow> cell set" where
  "grid_cells lv s = insert s {c. c \<notin> walls lv \<and> weight lv c \<noteq> None}"

text \<open>
  One iteration of the main loop of \<open>dijkstras_shortest_path\<close> that pops a cell other than
  the destination and relaxes its edges without raising.
\<close>

inductive dsp_step ::
  "('g \<Rightarrow> cell \<Rightarrow> error + (real \<times> cell) list) \<Rightarrow> 'g \<Rightarrow> cell \<Rightarrow>
     tracking \<times> queue \<Rightarrow> tracking \<times> queue \<Rightarrow> bool"
  for adj :: "'g \<Rightarrow> cell \<Rightarrow> error + (real \<times> cell) list" and g :: 'g and d :: cell
where
  "Q \<noteq> [] \<Longrightarrow> snd (fst (heappop Q)) \<noteq> d \<Longrightarrow> adj g (snd (fst (heappop Q))) = Inr es \<Longrightarrow>
   relax (snd (fst (heappop Q))) es T (snd (heappop Q)) = Inr (T', Q') \<Longrightarrow>
   dsp_step adj g d (T, Q) (T', Q')"

section \<open>Example levels\<close>

text \<open>A 3 by 3 field of weight 1, enclosed by a ring of walls.\<close>

definition field3 :: level where
  "field3 =
     \<lparr>walls = {(-1, -1), (0, -1), (1, -1), (2, -1), (3, -1), (-1, 0), (3, 0), (-1, 1), (3, 1),
               (-1, 2), (3, 2), (-1, 3), (0, 3), (1, 3), (2, 3), (3, 3)},
      spaces = [(0, 0) \<mapsto> 1, (1, 0) \<mapsto> 1, (2, 0) \<mapsto> 1, (0, 1) \<mapsto> 1, (1, 1) \<mapsto> 1,
                (2, 1) \<mapsto> 1, (0, 2) \<mapsto> 1, (1, 2) \<mapsto> 1, (2, 2) \<mapsto> 1],
      waypoints = Map.empty\<rparr>"

text \<open>The same field with no walls at all: the cells around it are in none of the tables.\<close>

definition bare3 :: level where
  "bare3 = field3\<lparr>walls := {}\<rparr>"

text \<open>Two cells side by side, of weights 1 and 3, enclosed by walls.\<close>

definition corridor :: level where
  "corridor =
     \<lparr>walls = {(-1, -1), (0, -1), (1, -1), (2, -1), (-1, 0), (2, 0), (-1, 1), (0, 1), (1, 1), (2, 1)},
      spaces = [(0, 0) \<mapsto> 1], waypoints = [(1, 0) \<mapsto> 3]\<rparr>"

text \<open>The corridor with the wall at its right end removed: the cell right of \<open>(1, 0)\<close> is in
  none of the tables.\<close>

definition leaky :: level where
  "leaky = corridor\<lparr>walls := walls corridor - {(2, 0)}\<rparr>"

section \<open>Properties of \<open>navigation_edges\<close>\<close>

lemma edges_loop_None:
  "edges_loop lv None ps acc = Inr es \<longleftrightarrow> (\<forall>(p, d) \<in> set ps. p \<in> walls lv) \<and> es = acc"
  by (induction ps arbitrary: acc) (auto split: option.splits if_splits)

lemma edges_loop_Some:
  "edges_loop lv (Some w) ps acc = Inr es \<longleftrightarrow>
     (\<forall>(p, d) \<in> set ps. p \<notin> walls lv \<longrightarrow> weight lv p \<noteq> None) \<and>
     es = acc @ map (\<lambda>(p, d). (d * (the (weight lv p) + w) / 2, p))
                  (filter (\<lambda>(p, d). p \<notin> walls lv) ps)"
proof (induction ps arbitrary: acc)
  case Nil
  show ?case by auto
next
  case (Cons pd ps)
  obtain p d where pd: "pd = (p, d)" by (cases pd)
  show ?case
  proof (cases "p \<in> walls lv")
    case True
    then show ?thesis using Cons.IH [of acc] by (simp add: pd)
  next
    case False
    show ?thesis
    proof (cases "weight lv p")
      case None
      then show ?thesis using False by (auto simp: pd)
    next
      case (Some pw)
      then show ?thesis using False Cons.IH [of "acc @ [(d * (pw + w) / 2, p)]"]
        by (simp add: pd)
    qed
  qed
qed

lemma edges_loop_Inl: "edges_loop lv weig ps acc = Inl e \<Longrightarrow> e = TypeError"
  by (induction ps arbitrary: acc) (auto split: option.splits if_splits)

lemma navigation_edges_Inl: "navigation_edges lv a = Inl e \<Longrightarrow> e = TypeError"
  by (auto simp: navigation_edges_def split: if_splits dest: edges_loop_Inl)

lemma adj_points_sym: "(b, d) \<in> set (adj_points a) \<Longrightarrow> (a, d) \<in> set (adj_points b)"
  by (auto simp: adj_points_def adj_offsets_def)

lemma adj_points_distinct: "distinct (map fst (adj_points a))"
  by (simp add: adj_points_def adj_offsets_def)

lemma adj_points_fun:
  "(b, d) \<in> set (adj_points a) \<Longrightarrow> (b, d') \<in> set (adj_points a) \<Longrightarrow> d = d'"
  by (auto simp: adj_points_def adj_offsets_def)

lemma adj_points_offset:
  "dx \<in> {-1, 0, 1} \<Longrightarrow> dy \<in> {-1, 0, 1} \<Longrightarrow> (dx, dy) \<noteq> (0, 0) \<Longrightarrow>
   ((fst a + dx, snd a + dy), if dx \<noteq> 0 \<and> dy \<noteq> 0 then diag else 1) \<in> set (adj_points a)"
  by (auto simp: adj_points_def adj_offsets_def)

lemma navigation_edges_mem:
  assumes "navigation_edges lv a = Inr es"
  shows "(c, b) \<in> set es \<longleftrightarrow>
     a \<notin> walls lv \<and> b \<notin> walls lv \<and>
     (\<exists>d wa wb. (b, d) \<in> set (adj_points a) \<and> weight lv a = Some wa \<and> weight lv b = Some wb \<and>
        c = d * (wb + wa) / 2)"
proof (cases "a \<in> walls lv")
  case True
  then show ?thesis using assms by (simp add: navigation_edges_def)
next
  case False
  then have el: "edges_loop lv (weight lv a) (adj_points a) [] = Inr es"
    using assms by (simp add: navigation_edges_def)
  show ?thesis
  proof (cases "weight lv a")
    case None
    then show ?thesis using el by (auto simp: edges_loop_None)
  next
    case (Some wa)
    then show ?thesis using el False by (force simp: edges_loop_Some)
  qed
qed

lemma navigation_edges_raises:
  assumes "a \<notin> walls lv" and "(p, d) \<in> set (adj_points a)" and "p \<notin> walls lv"
    and "weight lv p = None \<or> weight lv a = None"
  shows "navigation_edges lv a = Inl TypeError"
proof (cases "navigation_edges lv a")
  case (Inl e)
  then show ?thesis using navigation_edges_Inl by blast
next
  case (Inr es)
  then have el: "edges_loop lv (weight lv a) (adj_points a) [] = Inr es"
    using assms(1) by (simp add: navigation_edges_def)
  have False
  proof (cases "weight lv a")
    case None
    then show False using el assms(2,3) by (auto simp: edges_loop_None)
  next
    case (Some wa)
    then show False using el assms(2,3,4) by (auto simp: edges_loop_Some)
  qed
  then show ?thesis ..
qed

lemma navigation_edges_returns:
  assumes "a \<notin> walls lv" and "weight lv a \<noteq> None"
    and "\<And>p d. (p, d) \<in> set (adj_points a) \<Longrightarrow> p \<notin> walls lv \<Longrightarrow> weight lv p \<noteq> None"
  shows "\<exists>es. navigation_edges lv a = Inr es"
proof -
  obtain wa where wa: "weight lv a = Some wa" using assms(2) by blast
  have "\<forall>(p, d) \<in> set (adj_points a). p \<notin> walls lv \<longrightarrow> weight lv p \<noteq> None"
    using assms(3) by blast
  then show ?thesis using assms(1) wa by (simp add: navigation_edges_def edges_loop_Some)
qed

lemma navigation_edges_distinct:
  assumes "navigation_edges lv a = Inr es"
  shows "distinct (map snd es)"
proof (cases "a \<in> walls lv")
  case True
  then show ?thesis using assms by (simp add: navigation_edges_def)
next
  case False
  then have el: "edges_loop lv (weight lv a) (adj_points a) [] = Inr es"
    using assms by (simp add: navigation_edges_def)
  show ?thesis
  proof (cases "weight lv a")
    case None
    then show ?thesis using el by (auto simp: edges_loop_None)
  next
    case (Some wa)
    have "map snd es = map fst (filter (\<lambda>(p, d). p \<notin> walls lv) (adj_points a))"
      using el Some by (auto simp: edges_loop_Some)
    then show ?thesis using adj_points_distinct [of a] by (simp add: distinct_map_filter)
  qed
qed

lemma weight_None_iff: "weight lv c = None \<longleftrightarrow> spaces lv c = None \<and> waypoints lv c = None"
  by (simp add: weight_def split: option.splits)

subsection \<open>The example levels\<close>

lemma field3_edges_00:
  "navigation_edges field3 (0, 0) = Inr [(1, (1, 0)), (1, (0, 1)), (diag, (1, 1))]"
  by (simp add: navigation_edges_def field3_def adj_points_def adj_offsets_def weight_def)

lemma field3_edges_11:
  "navigation_edges field3 (1, 1) =
     Inr [(diag, (0, 0)), (1, (0, 1)), (1, (1, 0)), (diag, (0, 2)),
          (diag, (2, 0)), (1, (2, 1)), (1, (1, 2)), (diag, (2, 2))]"
  by (simp add: navigation_edges_def field3_def adj_points_def adj_offsets_def weight_def)

lemma corridor_edges_00: "navigation_edges corridor (0, 0) = Inr [(2, (1, 0))]"
  by (simp add: navigation_edges_def corridor_def adj_points_def adj_offsets_def weight_def)

lemma corridor_edges_10: "navigation_edges corridor (1, 0) = Inr [(2, (0, 0))]"
  by (simp add: navigation_edges_def corridor_def adj_points_def adj_offsets_def weight_def)

subsection \<open>Claims about the adjacency model\<close>

text \<open>
  C8.  A cell that is in \<open>walls\<close> has no outgoing edges: \<open>navigation_edges\<close> returns the empty
  list for it, whatever the rest of the level holds.
\<close>

theorem navigation_edges_wall_empty:
  "c \<in> walls lv \<Longrightarrow> navigation_edges lv c = Inr []"
  by (simp add: navigation_edges_def)

theorem navigation_edges_wall_empty_witness:
  "(-1, -1) \<in> walls field3 \<and> navigation_edges field3 (-1, -1) = Inr []"
proof -
  have h: "(-1, -1) \<in> walls field3" by (simp add: field3_def)
  show ?thesis using h navigation_edges_wall_empty [OF h] by blast
qed

text \<open>
  C6.  For a cell that is not a wall: if one of its eight candidate neighbours is not a wall and
  has no weight in \<open>spaces\<close> or \<open>waypoints\<close>, the call raises (a \<open>TypeError\<close> from adding
  \<open>None\<close>) and returns no edge list; it also raises when the cell itself has no weight and one
  of its neighbours is not a wall.
\<close>

theorem navigation_edges_fail_fast:
  assumes "c \<notin> walls lv" and "(p, d) \<in> set (adj_points c)" and "p \<notin> walls lv"
    and "(spaces lv p = None \<and> waypoints lv p = None) \<or> (spaces lv c = None \<and> waypoints lv c = None)"
  shows "navigation_edges lv c = Inl TypeError"
  using assms navigation_edges_raises [of c lv p d] by (simp add: weight_None_iff)

theorem navigation_edges_fail_fast_witness:
  "(0, 0) \<notin> walls bare3 \<and> ((-1, -1), diag) \<in> set (adj_points (0, 0)) \<and> (-1, -1) \<notin> walls bare3 \<and>
   spaces bare3 (-1, -1) = None \<and> waypoints bare3 (-1, -1) = None \<and>
   navigation_edges bare3 (0, 0) = Inl TypeError"
proof -
  have h1: "(0, 0) \<notin> walls bare3" by (simp add: bare3_def)
  have h2: "((-1, -1), diag) \<in> set (adj_points (0, 0))" by (simp add: adj_points_def adj_offsets_def)
  have h3: "(-1, -1) \<notin> walls bare3" by (simp add: bare3_def)
  have h4: "spaces bare3 (-1, -1) = None \<and> waypoints bare3 (-1, -1) = None"
    by (simp add: bare3_def field3_def)
  have "navigation_edges bare3 (0, 0) = Inl TypeError"
    using navigation_edges_fail_fast [OF h1 h2 h3] h4 by blast
  then show ?thesis using h1 h2 h3 h4 by blast
qed

text \<open>
  C7.  Let \<open>a\<close> and \<open>b\<close> be cells that are not walls, with weights \<open>wa\<close> and \<open>wb\<close>, and \<open>b\<close>
  be \<open>a\<close> moved by one of the eight offsets \<open>(dx, dy)\<close>.  Whenever \<open>navigation_edges\<close> returns
  an edge list at \<open>a\<close>, the cost it lists for \<open>b\<close> is exactly \<open>f * (wa + wb) / 2\<close>, with
  \<open>f = sqrt 2\<close> for a diagonal offset and \<open>f = 1\<close> for an orthogonal one; whenever it returns an
  edge list at \<open>b\<close>, the cost listed there for \<open>a\<close> is the same; and for equal weights the cost
  is \<open>wa * sqrt 2\<close> on a diagonal and \<open>wa\<close> otherwise.
\<close>

theorem edge_cost_formula:
  assumes "a \<notin> walls lv" and "b \<notin> walls lv"
    and "weight lv a = Some wa" and "weight lv b = Some wb"
    and "dx \<in> {-1, 0, 1}" and "dy \<in> {-1, 0, 1}" and "(dx, dy) \<noteq> (0, 0)"
    and "b = (fst a + dx, snd a + dy)"
  shows "(navigation_edges lv a = Inr es \<longrightarrow>
           ((c, b) \<in> set es \<longleftrightarrow> c = (if dx \<noteq> 0 \<and> dy \<noteq> 0 then sqrt 2 else 1) * (wa + wb) / 2)) \<and>
         (navigation_edges lv b = Inr es' \<longrightarrow>
           ((c, a) \<in> set es' \<longleftrightarrow> c = (if dx \<noteq> 0 \<and> dy \<noteq> 0 then sqrt 2 else 1) * (wa + wb) / 2)) \<and>
         (wa = wb \<longrightarrow> (if dx \<noteq> 0 \<and> dy \<noteq> 0 then sqrt 2 else 1) * (wa + wb) / 2 =
                          (if dx \<noteq> 0 \<and> dy \<noteq> 0 then wa * sqrt 2 else wa))"
proof -
  let ?f = "if dx \<noteq> 0 \<and> dy \<noteq> 0 then diag else 1"
  have ab: "(b, ?f) \<in> set (adj_points a)"
    using adj_points_offset [OF assms(5,6,7), of a] assms(8) by simp
  then have ba: "(a, ?f) \<in> set (adj_points b)" by (rule adj_points_sym)
  have one: "(c, b) \<in> set es \<longleftrightarrow> c = ?f * (wa + wb) / 2" if nea: "navigation_edges lv a = Inr es"
  proof
    assume "(c, b) \<in> set es"
    then obtain d where "(b, d) \<in> set (adj_points a)" and "c = d * (wb + wa) / 2"
      using navigation_edges_mem [OF nea, of c b] assms(3,4) by auto
    then show "c = ?f * (wa + wb) / 2" using adj_points_fun [OF ab, of d] by (simp add: add.commute)
  next
    assume "c = ?f * (wa + wb) / 2"
    then show "(c, b) \<in> set es"
      using navigation_edges_mem [OF nea, of c b] assms(1-4) ab by (auto simp: add.commute)
  qed
  have two: "(c, a) \<in> set es' \<longleftrightarrow> c = ?f * (wa + wb) / 2" if neb: "navigation_edges lv b = Inr es'"
  proof
    assume "(c, a) \<in> set es'"
    then obtain d where "(a, d) \<in> set (adj_points b)" and "c = d * (wa + wb) / 2"
      using navigation_edges_mem [OF neb, of c a] assms(3,4) by auto
    then show "c = ?f * (wa + wb) / 2" using adj_points_fun [OF ba, of d] by simp
  next
    assume "c = ?f * (wa + wb) / 2"
    then show "(c, a) \<in> set es'"
      using navigation_edges_mem [OF neb, of c a] assms(1-4) ba by auto
  qed
  show ?thesis using one two by (simp add: diag_def)
qed

theorem edge_cost_formula_witness:
  "(0, 0) \<notin> walls field3 \<and> (1, 1) \<notin> walls field3 \<and>
   weight field3 (0, 0) = Some 1 \<and> weight field3 (1, 1) = Some 1 \<and>
   navigation_edges field3 (0, 0) = Inr [(1, (1, 0)), (1, (0, 1)), (diag, (1, 1))] \<and>
   (sqrt 2 * (1 + 1) / 2, (1, 1)) \<in>
     set ([(1, (1, 0)), (1, (0, 1)), (diag, (1, 1))] :: (real \<times> cell) list) \<and>
   navigation_edges field3 (1, 1) =
     Inr [(diag, (0, 0)), (1, (0, 1)), (1, (1, 0)), (diag, (0, 2)),
          (diag, (2, 0)), (1, (2, 1)), (1, (1, 2)), (diag, (2, 2))] \<and>
   (sqrt 2 * (1 + 1) / 2, (0, 0)) \<in>
     set ([(diag, (0, 0)), (1, (0, 1)), (1, (1, 0)), (diag, (0, 2)),
           (diag, (2, 0)), (1, (2, 1)), (1, (1, 2)), (diag, (2, 2))] :: (real \<times> cell) list)"
proof -
  let ?es = "[(1, (1, 0)), (1, (0, 1)), (diag, (1, 1))] :: (real \<times> cell) list"
  let ?es' = "[(diag, (0, 0)), (1, (0, 1)), (1, (1, 0)), (diag, (0, 2)),
          (diag, (2, 0)), (1, (2, 1)), (1, (1, 2)), (diag, (2, 2))] :: (real \<times> cell) list"
  have h1: "(0, 0) \<notin> walls field3" and h2: "(1, 1) \<notin> walls field3"
    by (simp_all add: field3_def)
  have h3: "weight field3 (0, 0) = Some 1" and h4: "weight field3 (1, 1) = Some 1"
    by (simp_all add: field3_def weight_def)
  have h5: "(1::int) \<in> {-1, 0, 1}" and h7: "((1::int), (1::int)) \<noteq> (0, 0)"
    and h8: "((1::int), (1::int)) = (fst (0, 0) + 1, snd (0, 0) + 1)"
    by simp_all
  note concl = edge_cost_formula [OF h1 h2 h3 h4 h5 h5 h7 h8, of ?es "sqrt 2 * (1 + 1) / 2" ?es']
  have a: "(sqrt 2 * (1 + 1) / 2, (1, 1)) \<in> set ?es"
    using concl field3_edges_00 by simp
  have b: "(sqrt 2 * (1 + 1) / 2, (0, 0)) \<in> set ?es'"
    using concl field3_edges_11 by simp
  show ?thesis using h1 h2 h3 h4 field3_edges_00 a field3_edges_11 b by (intro conjI)
qed

section \<open>The relaxation loop on any graph\<close>

lemma relax_all_invariant:
  assumes "relax_all u es M Q = Inr (M', Q')" and "I M Q"
    and "\<And>M Q e w cu. I M Q \<Longrightarrow> (e, w) \<in> set es \<Longrightarrow> M u = Some cu \<Longrightarrow>
           (\<forall>cw. M w = Some cw \<longrightarrow> e + cu < cw) \<Longrightarrow> I (M(w \<mapsto> e + cu)) ((e + cu, w) # Q)"
  shows "I M' Q'"
  using assms
proof (induction es arbitrary: M Q)
  case Nil
  then show ?case by simp
next
  case (Cons ew es)
  obtain e w where ew: "ew = (e, w)" by (cases ew)
  obtain cu where cu: "M u = Some cu"
    using Cons.prems(1) by (auto simp: ew split: option.splits)
  have step: "I (M(w \<mapsto> e + cu)) ((e + cu, w) # Q)"
    if "I M Q" and "(e, w) \<in> set es" and "M u = Some cu"
      and "\<forall>cw. M w = Some cw \<longrightarrow> e + cu < cw" for M Q e w cu
  proof -
    have "(e, w) \<in> set (ew # es)" using that(2) by simp
    then show ?thesis by (rule Cons.prems(3) [OF that(1) _ that(3,4)])
  qed
  show ?case
  proof (cases "\<forall>cw. M w = Some cw \<longrightarrow> e + cu < cw")
    case True
    then have run: "relax_all u es (M(w \<mapsto> e + cu)) ((e + cu, w) # Q) = Inr (M', Q')"
      using Cons.prems(1) cu by (auto simp: ew heappush_def Let_def split: option.splits if_splits)
    have "(e, w) \<in> set (ew # es)" by (simp add: ew)
    then have "I (M(w \<mapsto> e + cu)) ((e + cu, w) # Q)"
      by (rule Cons.prems(3) [OF Cons.prems(2) _ cu True])
    then show ?thesis using Cons.IH [OF run _ step] by blast
  next
    case False
    then have run: "relax_all u es M Q = Inr (M', Q')"
      using Cons.prems(1) cu by (auto simp: ew heappush_def Let_def split: option.splits if_splits)
    show ?thesis using Cons.IH [OF run Cons.prems(2) step] by blast
  qed
qed

lemma relax_all_mono:
  assumes "relax_all u es M Q = Inr (M', Q')" and "M v = Some cv"
  shows "\<exists>cv'. M' v = Some cv' \<and> cv' \<le> cv"
  by (rule relax_all_invariant [OF assms(1), where I = "\<lambda>M Q. \<exists>cv'. M v = Some cv' \<and> cv' \<le> cv"])
     (use assms(2) in \<open>auto\<close>)

lemma relax_all_queue_mono:
  assumes "relax_all u es M Q = Inr (M', Q')"
  shows "set Q \<subseteq> set Q'"
  by (rule relax_all_invariant [OF assms, where I = "\<lambda>M Q1. set Q \<subseteq> set Q1"]) auto

lemma relax_all_changed:
  assumes "relax_all u es M Q = Inr (M', Q')" and "M' v \<noteq> M v"
  shows "\<exists>c. M' v = Some c \<and> (c, v) \<in> set Q'"
proof -
  have "M' v = M v \<or> (\<exists>c. M' v = Some c \<and> (c, v) \<in> set Q')"
    by (rule relax_all_invariant [OF assms(1),
          where I = "\<lambda>M1 Q1. M1 v = M v \<or> (\<exists>c. M1 v = Some c \<and> (c, v) \<in> set Q1)"]) auto
  then show ?thesis using assms(2) by blast
qed

lemma relax_all_finite:
  assumes "relax_all u es M Q = Inr (M', Q')" and "finite (dom M)"
  shows "finite (dom M')"
  by (rule relax_all_invariant [OF assms(1), where I = "\<lambda>M Q. finite (dom M)"])
     (use assms(2) in \<open>auto\<close>)

lemma relax_all_relaxes:
  assumes "relax_all u es M Q = Inr (M', Q')" and "M' u = M u" and "M u = Some cu"
  shows "\<forall>e w. (e, w) \<in> set es \<longrightarrow> (\<exists>cw. M' w = Some cw \<and> cw \<le> cu + e)"
  using assms
proof (induction es arbitrary: M Q)
  case Nil
  then show ?case by simp
next
  case (Cons ew es)
  obtain e w where ew: "ew = (e, w)" by (cases ew)
  show ?case
  proof (cases "\<forall>cw. M w = Some cw \<longrightarrow> e + cu < cw")
    case True
    let ?M1 = "M(w \<mapsto> e + cu)"
    have run: "relax_all u es ?M1 ((e + cu, w) # Q) = Inr (M', Q')"
    proof (cases "M w")
      case None
      then show ?thesis using Cons.prems(1,3) by (simp add: ew heappush_def Let_def)
    next
      case (Some cw)
      then have "e + cu < cw" using True by simp
      then show ?thesis using Cons.prems(1,3) Some by (simp add: ew heappush_def Let_def)
    qed
    have "w \<noteq> u"
    proof
      assume wu: "w = u"
      then have lt: "e + cu < cu" using True Cons.prems(3) by simp
      have "?M1 u = Some (e + cu)" using wu by simp
      from relax_all_mono [OF run this] obtain c' where "M' u = Some c'" "c' \<le> e + cu" by blast
      then show False using lt Cons.prems(2,3) by simp
    qed
    then have u1: "?M1 u = Some cu" and u2: "M' u = ?M1 u" using Cons.prems(2,3) by auto
    have rest: "\<forall>e w. (e, w) \<in> set es \<longrightarrow> (\<exists>cw. M' w = Some cw \<and> cw \<le> cu + e)"
      by (rule Cons.IH [OF run u2 u1])
    have "?M1 w = Some (e + cu)" by simp
    from relax_all_mono [OF run this] have "\<exists>cw. M' w = Some cw \<and> cw \<le> cu + e"
      by (simp add: add.commute)
    then show ?thesis using rest by (simp add: ew)
  next
    case False
    then obtain cw where cw: "M w = Some cw" and le: "cw \<le> cu + e"
      by (auto simp: not_less add.commute)
    have run: "relax_all u es M Q = Inr (M', Q')"
      using Cons.prems(1,3) cw le
      by (simp add: ew heappush_def Let_def add.commute)
    have rest: "\<forall>e w. (e, w) \<in> set es \<longrightarrow> (\<exists>cw. M' w = Some cw \<and> cw \<le> cu + e)"
      by (rule Cons.IH [OF run Cons.prems(2,3)])
    obtain cw' where "M' w = Some cw'" "cw' \<le> cw" using relax_all_mono [OF run cw] by blast
    then have "\<exists>cw'. M' w = Some cw' \<and> cw' \<le> cu + e" using le by simp
    then show ?thesis using rest by (simp add: ew)
  qed
qed

lemma relaxed_mono:
  assumes "relaxed adj g M v" and "M' v = M v"
    and "\<And>w cw. M w = Some cw \<Longrightarrow> \<exists>cw'. M' w = Some cw' \<and> cw' \<le> cw"
  shows "relaxed adj g M' v"
proof -
  obtain cv es where v: "M v = Some cv" "adj g v = Inr es"
    and r: "\<forall>e w. (e, w) \<in> set es \<longrightarrow> (\<exists>cw. M w = Some cw \<and> cw \<le> cv + e)"
    using assms(1) unfolding relaxed_def by blast
  have "\<exists>cw. M' w = Some cw \<and> cw \<le> cv + e" if ew: "(e, w) \<in> set es" for e w
  proof -
    obtain cw where cw: "M w = Some cw" "cw \<le> cv + e" using r ew by blast
    obtain cw' where "M' w = Some cw'" "cw' \<le> cw" using assms(3) [OF cw(1)] by blast
    then show ?thesis using cw(2) by simp
  qed
  then have "\<forall>e w. (e, w) \<in> set es \<longrightarrow> (\<exists>cw. M' w = Some cw \<and> cw \<le> cv + e)" by blast
  moreover have "M' v = Some cv" using v(1) assms(2) by simp
  ultimately show ?thesis using v(2) unfolding relaxed_def by blast
qed

lemma closed_inv_step:
  assumes "closed_inv adj g M Q" and "adj g u = Inr es"
    and "relax_all u es M (remove1 (c, u) Q) = Inr (M', Q')"
  shows "closed_inv adj g M' Q'"
  unfolding closed_inv_def
proof (intro allI impI)
  fix v cv
  assume v: "M' v = Some cv"
  note run = assms(3)
  show "(cv, v) \<in> set Q' \<or> relaxed adj g M' v"
  proof (cases "M' v = M v")
    case False
    then show ?thesis using relax_all_changed [OF run, of v] v by auto
  next
    case True
    then have mv: "M v = Some cv" using v by simp
    show ?thesis
    proof (cases "v = u")
      case True
      have "\<forall>e w. (e, w) \<in> set es \<longrightarrow> (\<exists>cw. M' w = Some cw \<and> cw \<le> cv + e)"
        using relax_all_relaxes [OF run, of cv] \<open>M' v = M v\<close> mv True by simp
      then have "relaxed adj g M' v" using v True assms(2) unfolding relaxed_def by blast
      then show ?thesis ..
    next
      case False
      from assms(1) mv have "(cv, v) \<in> set Q \<or> relaxed adj g M v"
        unfolding closed_inv_def by blast
      then show ?thesis
      proof
        assume "(cv, v) \<in> set Q"
        then have "(cv, v) \<in> set (remove1 (c, u) Q)" using False by simp
        then show ?thesis using relax_all_queue_mono [OF run] by blast
      next
        assume "relaxed adj g M v"
        then have "relaxed adj g M' v"
          using relaxed_mono [of adj g M v M'] True relax_all_mono [OF run] by blast
        then show ?thesis ..
      qed
    qed
  qed
qed

lemma witness_inv_step:
  assumes "witness_inv adj g s M" and "adj g u = Inr es"
    and "relax_all u es M Q = Inr (M', Q')"
  shows "witness_inv adj g s M'"
proof (rule relax_all_invariant [OF assms(3), where I = "\<lambda>M Q. witness_inv adj g s M"])
  show "witness_inv adj g s M" by (rule assms(1))
next
  fix M :: costs and Q :: queue and e w cu
  assume inv: "witness_inv adj g s M" and ew: "(e, w) \<in> set es" and cu: "M u = Some cu"
  obtain ns where ns: "walk adj g s ns cu" "last ns = u"
    using inv cu unfolding witness_inv_def by blast
  have "(e, w) \<in> edges adj g (last ns)" using ew assms(2) ns(2) by (simp add: edges_def)
  then have "walk adj g s (ns @ [w]) (cu + e)" using ns(1) by (rule walk_step [rotated])
  then have "\<exists>ns'. walk adj g s ns' (e + cu) \<and> last ns' = w"
    by (intro exI [of _ "ns @ [w]"]) (simp add: add.commute)
  then show "witness_inv adj g s (M(w \<mapsto> e + cu))"
    using inv unfolding witness_inv_def by auto
qed

lemma start_inv_step:
  assumes "start_inv s M" and "relax_all u es M Q = Inr (M', Q')"
  shows "start_inv s M'"
proof -
  obtain c0 where "M s = Some c0" "c0 \<le> 0" using assms(1) unfolding start_inv_def by blast
  then show ?thesis using relax_all_mono [OF assms(2), of s c0] unfolding start_inv_def by force
qed

lemma basic_inv_step:
  assumes "basic_inv adj g s M Q" and "adj g u = Inr es"
    and "relax_all u es M (remove1 (c, u) Q) = Inr (M', Q')"
  shows "basic_inv adj g s M' Q'"
proof -
  have "closed_inv adj g M Q" and "witness_inv adj g s M" and "start_inv s M" and "finite (dom M)"
    using assms(1) unfolding basic_inv_def by auto
  then have "closed_inv adj g M' Q'" and "witness_inv adj g s M'" and "start_inv s M'"
    and "finite (dom M')"
    using closed_inv_step [of adj g M Q u es c M' Q'] witness_inv_step [of adj g s M u es _ M' Q']
      start_inv_step [of s M u es _ M' Q'] relax_all_finite [of u es M _ M' Q'] assms(2,3)
    by blast+
  then show ?thesis unfolding basic_inv_def by blast
qed

lemma basic_inv_init: "basic_inv adj g s [s \<mapsto> 0] [(0, s)]"
  unfolding basic_inv_def closed_inv_def witness_inv_def start_inv_def
  by (auto intro: exI [of _ "[s]"] walk_start)

subsection \<open>The priority queue\<close>

lemma heappop_fst: "Q \<noteq> [] \<Longrightarrow> fst (heappop Q) = Min (set Q)"
  by (cases Q) (simp_all add: heappop_def Let_def Min.set_eq_fold [symmetric] del: set_simps)

lemma heappop_snd: "snd (heappop Q) = remove1 (fst (heappop Q)) Q"
  by (simp add: heappop_def Let_def)

lemma heappop_mem: "Q \<noteq> [] \<Longrightarrow> fst (heappop Q) \<in> set Q"
  by (simp add: heappop_fst)

lemma heappop_least: "x \<in> set Q \<Longrightarrow> fst (heappop Q) \<le> x"
  by (cases "Q = []") (simp_all add: heappop_fst)

lemma heappop_least_cost:
  assumes "(c', w) \<in> set Q" and "fst (heappop Q) = (c, u)"
  shows "c \<le> c'"
  using heappop_least [OF assms(1)] assms(2) by (auto simp: less_eq_prod_simp)

subsection \<open>What the cost table holds when the queue is empty\<close>

lemma dsa_loop_basic:
  assumes "dsa_loop adj g M Q = Some r"
  shows "basic_inv adj g s M Q \<longrightarrow> (\<forall>M'. r = Inr M' \<longrightarrow> basic_inv adj g s M' [])"
proof (rule dsa_loop.raw_induct [OF _ assms,
        where P = "\<lambda>adj g M Q r. basic_inv adj g s M Q \<longrightarrow> (\<forall>M'. r = Inr M' \<longrightarrow> basic_inv adj g s M' [])"])
  fix loop :: "('g \<Rightarrow> cell \<Rightarrow> error + (real \<times> cell) list) \<Rightarrow> 'g \<Rightarrow> costs \<Rightarrow> queue \<Rightarrow> (error + costs) option"
  fix adj :: "'g \<Rightarrow> cell \<Rightarrow> error + (real \<times> cell) list" and g :: 'g and M :: costs and Q :: queue
    and r :: "error + costs"
  assume IH: "\<And>adj g M Q r. loop adj g M Q = Some r \<Longrightarrow>
      basic_inv adj g s M Q \<longrightarrow> (\<forall>M'. r = Inr M' \<longrightarrow> basic_inv adj g s M' [])"
  assume body: "(if Q = [] then Some (Inr M)
      else let currNode = snd (fst (heappop Q)); queue1 = snd (heappop Q)
           in case adj g currNode of Inl e \<Rightarrow> Some (Inl e)
              | Inr es \<Rightarrow>
                  (case relax_all currNode es M queue1 of Inl e \<Rightarrow> Some (Inl e)
                   | Inr tq \<Rightarrow> loop adj g (fst tq) (snd tq))) = Some r"
  show "basic_inv adj g s M Q \<longrightarrow> (\<forall>M'. r = Inr M' \<longrightarrow> basic_inv adj g s M' [])"
  proof (intro impI allI)
    fix M'
    assume inv: "basic_inv adj g s M Q" and r: "r = Inr M'"
    show "basic_inv adj g s M' []"
    proof (cases "Q = []")
      case True
      then show ?thesis using body inv r by simp
    next
      case False
      obtain c u where m: "fst (heappop Q) = (c, u)" by (cases "fst (heappop Q)")
      have q1: "snd (heappop Q) = remove1 (c, u) Q" using heappop_snd [of Q] m by simp
      obtain es where es: "adj g u = Inr es"
        using body False m r by (cases "adj g u") (auto simp: Let_def)
      have body2: "(case relax_all u es M (remove1 (c, u) Q) of Inl e \<Rightarrow> Some (Inl e)
                   | Inr tq \<Rightarrow> loop adj g (fst tq) (snd tq)) = Some r"
        using body False m q1 es by (simp add: Let_def)
      obtain M1 Q1 where run: "relax_all u es M (remove1 (c, u) Q) = Inr (M1, Q1)"
        using body2 r by (cases "relax_all u es M (remove1 (c, u) Q)") auto
      have rec: "loop adj g M1 Q1 = Some r" using body2 run by simp
      have "basic_inv adj g s M1 Q1" by (rule basic_inv_step [OF inv es run])
      then show ?thesis using IH [OF rec] r by blast
    qed
  qed
qed

lemma closed_walk:
  assumes "closed_inv adj g M []" and "walk adj g s ns k" and "M s = Some c0"
  shows "\<exists>cv. M (last ns) = Some cv \<and> cv \<le> c0 + k"
  using assms(2)
proof (induction rule: walk.induct)
  case walk_start
  then show ?case using assms(3) by simp
next
  case (walk_step ns c e w)
  then obtain cu where cu: "M (last ns) = Some cu" "cu \<le> c0 + c" by blast
  then have "relaxed adj g M (last ns)" using assms(1) unfolding closed_inv_def by fastforce
  then obtain es where es: "adj g (last ns) = Inr es"
    and r: "\<forall>e w. (e, w) \<in> set es \<longrightarrow> (\<exists>cw. M w = Some cw \<and> cw \<le> cu + e)"
    using cu(1) unfolding relaxed_def by auto
  have "(e, w) \<in> set es" using walk_step.hyps(2) es by (simp add: edges_def)
  then obtain cw where "M w = Some cw" "cw \<le> cu + e" using r by blast
  then show ?case using cu(2) by auto
qed

lemma basic_inv_final:
  assumes "basic_inv adj g s M []"
  shows "M s = Some 0"
    and "M v = Some cv \<Longrightarrow> \<exists>ns. walk adj g s ns cv \<and> last ns = v"
    and "walk adj g s ns k \<Longrightarrow> \<exists>cv. M (last ns) = Some cv \<and> cv \<le> k"
proof -
  have cl: "closed_inv adj g M []" and wi: "witness_inv adj g s M" and st: "start_inv s M"
    using assms unfolding basic_inv_def by auto
  obtain c0 where c0: "M s = Some c0" "c0 \<le> 0" using st unfolding start_inv_def by blast
  obtain ns0 where ns0: "walk adj g s ns0 c0" "last ns0 = s"
    using wi c0(1) unfolding witness_inv_def by blast
  have "c0 \<le> c0 + c0" using closed_walk [OF cl ns0(1) c0(1)] ns0(2) c0(1) by simp
  then have "c0 = 0" using c0(2) by simp
  then show s0: "M s = Some 0" using c0(1) by simp
  show "M v = Some cv \<Longrightarrow> \<exists>ns. walk adj g s ns cv \<and> last ns = v"
    using wi unfolding witness_inv_def by blast
  show "walk adj g s ns k \<Longrightarrow> \<exists>cv. M (last ns) = Some cv \<and> cv \<le> k"
    using closed_walk [OF cl _ s0, of ns k] by simp
qed

section \<open>The searches on a graph without negative costs\<close>

lemma inner_inv_update:
  assumes inv: "inner_inv N u c S M Q" and wN: "w \<in> N" and e0: "0 \<le> e"
    and upd: "\<forall>cw. M w = Some cw \<longrightarrow> e + c < cw"
  shows "inner_inv N u c S (M(w \<mapsto> e + c)) ((e + c, w) # Q)"
proof -
  let ?M = "M(w \<mapsto> e + c)" and ?Q = "(e + c, w) # Q"
  have dom: "dom M \<subseteq> N" and qs: "queue_sound M Q" and dis: "distinct Q" and mu: "M u = Some c"
    and lb: "\<forall>c' w. (c', w) \<in> set Q \<longrightarrow> c \<le> c'" and nu: "(c, u) \<notin> set Q"
    and ub: "\<forall>v cv. M v = Some cv \<longrightarrow> (cv, v) \<notin> set Q \<longrightarrow> cv \<le> c"
    and st: "\<forall>v \<in> S. settled M Q v"
    using inv unfolding inner_inv_def by auto
  have wu: "w \<noteq> u" using upd mu e0 by auto
  have new: "(e + c, w) \<notin> set Q"
  proof
    assume "(e + c, w) \<in> set Q"
    then obtain cw where "M w = Some cw" "cw \<le> e + c" using qs unfolding queue_sound_def by blast
    then show False using upd by auto
  qed
  have 1: "dom ?M \<subseteq> N" using dom wN by auto
  have 2: "queue_sound ?M ?Q"
    unfolding queue_sound_def
  proof (intro allI impI)
    fix c' v
    assume "(c', v) \<in> set ?Q"
    then consider "c' = e + c" "v = w" | "(c', v) \<in> set Q" by auto
    then show "\<exists>cv. ?M v = Some cv \<and> cv \<le> c'"
    proof cases
      case 1
      then show ?thesis by simp
    next
      case 2
      then obtain cv where cv: "M v = Some cv" "cv \<le> c'"
        using qs unfolding queue_sound_def by blast
      show ?thesis
      proof (cases "v = w")
        case True
        then have "e + c < cv" using upd cv(1) by simp
        then show ?thesis using True cv(2) by simp
      next
        case False
        then show ?thesis using cv by simp
      qed
    qed
  qed
  have 3: "distinct ?Q" using dis new by simp
  have 4: "?M u = Some c" using mu wu by simp
  have 5: "\<forall>c' v. (c', v) \<in> set ?Q \<longrightarrow> c \<le> c'" using lb e0 by auto
  have 6: "(c, u) \<notin> set ?Q" using nu wu by simp
  have 7: "\<forall>v cv. ?M v = Some cv \<longrightarrow> (cv, v) \<notin> set ?Q \<longrightarrow> cv \<le> c"
  proof (intro allI impI)
    fix v cv
    assume a: "?M v = Some cv" "(cv, v) \<notin> set ?Q"
    then have "v \<noteq> w" by auto
    then have "M v = Some cv" and "(cv, v) \<notin> set Q" using a by simp_all
    then show "cv \<le> c" using ub by blast
  qed
  have 8: "\<forall>v \<in> S. settled ?M ?Q v"
  proof
    fix v
    assume "v \<in> S"
    then obtain cv where cv: "M v = Some cv" "(cv, v) \<notin> set Q"
      using st unfolding settled_def by blast
    then have "cv \<le> c" using ub by blast
    then have "v \<noteq> w" using upd cv(1) e0 by auto
    then show "settled ?M ?Q v" using cv unfolding settled_def by simp
  qed
  show ?thesis unfolding inner_inv_def using 1 2 3 4 5 6 7 8 by blast
qed

lemma relax_all_noop:
  assumes "M u = Some cu"
    and "\<forall>e w. (e, w) \<in> set es \<longrightarrow> (\<exists>cw. M w = Some cw \<and> cw \<le> cu + e)"
  shows "relax_all u es M Q = Inr (M, Q)"
  using assms(2)
proof (induction es)
  case Nil
  show ?case by simp
next
  case (Cons ew es)
  obtain e w where ew: "ew = (e, w)" by (cases ew)
  have "(e, w) \<in> set (ew # es)" by (simp add: ew)
  then obtain cw where cw: "M w = Some cw" "cw \<le> cu + e" using Cons.prems by blast
  have "\<forall>e w. (e, w) \<in> set es \<longrightarrow> (\<exists>cw. M w = Some cw \<and> cw \<le> cu + e)"
    using Cons.prems by (meson list.set_intros(2))
  then have "relax_all u es M Q = Inr (M, Q)" by (rule Cons.IH)
  then show ?case using cw assms(1) by (simp add: ew Let_def add.commute)
qed

lemma settled_remove1:
  assumes "settled M Q v"
  shows "settled M (remove1 x Q) v"
  using assms notin_set_remove1 unfolding settled_def by fast

lemma outer_inv_remove1:
  assumes "outer_inv N M Q" and "\<forall>cv v. x = (cv, v) \<longrightarrow> M v \<noteq> Some cv"
  shows "outer_inv N M (remove1 x Q)"
proof -
  have dom: "dom M \<subseteq> N" and qs: "queue_sound M Q" and dis: "distinct Q"
    and ub: "\<forall>v cv c w. M v = Some cv \<longrightarrow> (cv, v) \<notin> set Q \<longrightarrow> (c, w) \<in> set Q \<longrightarrow> cv \<le> c"
    using assms(1) unfolding outer_inv_def by auto
  have sub: "set (remove1 x Q) \<subseteq> set Q" by (rule set_remove1_subset)
  have 2: "queue_sound M (remove1 x Q)" using qs sub unfolding queue_sound_def by blast
  have 4: "\<forall>v cv c w. M v = Some cv \<longrightarrow> (cv, v) \<notin> set (remove1 x Q) \<longrightarrow>
              (c, w) \<in> set (remove1 x Q) \<longrightarrow> cv \<le> c"
  proof (intro allI impI)
    fix v cv c w
    assume a: "M v = Some cv" "(cv, v) \<notin> set (remove1 x Q)" "(c, w) \<in> set (remove1 x Q)"
    have "(cv, v) \<noteq> x" using a(1) assms(2) by blast
    then have "(cv, v) \<notin> set Q" using a(2) by simp
    then show "cv \<le> c" using ub a(1,3) sub by blast
  qed
  show ?thesis unfolding outer_inv_def using dom 2 dis 4 by simp
qed

lemma relax_all_returns:
  "M u \<noteq> None \<Longrightarrow> \<exists>M' Q'. relax_all u es M Q = Inr (M', Q')"
proof (induction es arbitrary: M Q)
  case Nil
  show ?case by simp
next
  case (Cons ew es)
  obtain e w where ew: "ew = (e, w)" by (cases ew)
  obtain cu where cu: "M u = Some cu" using Cons.prems by blast
  have 1: "\<exists>M' Q'. relax_all u es (M(w \<mapsto> e + cu)) ((e + cu, w) # Q) = Inr (M', Q')"
    by (rule Cons.IH) (simp add: cu)
  have 2: "\<exists>M' Q'. relax_all u es M Q = Inr (M', Q')"
    by (rule Cons.IH) (simp add: cu)
  show ?case using 1 2 cu by (simp add: ew Let_def heappush_def split: option.splits)
qed

lemma pop_tracked:
  assumes "queue_sound M Q" and "Q \<noteq> []" and "fst (heappop Q) = (c, u)"
  shows "\<exists>cu. M u = Some cu \<and> cu \<le> c"
proof -
  have "(c, u) \<in> set Q" using heappop_mem [OF assms(2)] assms(3) by simp
  then show ?thesis using assms(1) unfolding queue_sound_def by blast
qed

lemma stale_relaxed:
  assumes "queue_sound M Q" and "closed_inv adj g M Q" and "Q \<noteq> []"
    and "fst (heappop Q) = (c, u)" and "M u = Some cu" and "cu \<noteq> c"
  shows "relaxed adj g M u" and "(cu, u) \<notin> set Q" and "cu < c"
proof -
  show lt: "cu < c" using pop_tracked [OF assms(1,3,4)] assms(5,6) by auto
  show notin: "(cu, u) \<notin> set Q"
  proof
    assume "(cu, u) \<in> set Q"
    then have "c \<le> cu" using assms(4) by (rule heappop_least_cost)
    then show False using lt by simp
  qed
  show "relaxed adj g M u" using assms(2,5) notin unfolding closed_inv_def by blast
qed

lemma wf_search_rel: "wf (search_rel N)"
  unfolding search_rel_def by (intro wf_inv_image wf_lex_prod wf_less_than)

lemma search_rel_shorter:
  assumes "unsettled N M' Q' \<subseteq> unsettled N M Q" and "finite N" and "length Q' < length Q"
  shows "((M', Q'), (M, Q)) \<in> search_rel N"
proof -
  have "finite (unsettled N M Q)" using assms(2) unfolding unsettled_def by simp
  then have "card (unsettled N M' Q') \<le> card (unsettled N M Q)"
    using assms(1) by (rule card_mono)
  then show ?thesis using assms(3) unfolding search_rel_def by auto
qed

lemma search_rel_settles:
  assumes "finite N" and "u \<in> N" and "\<not> settled M Q u" and "settled M' Q' u"
    and "\<forall>v. settled M Q v \<longrightarrow> settled M' Q' v"
  shows "((M', Q'), (M, Q)) \<in> search_rel N"
proof -
  have fin: "finite (unsettled N M Q)" using assms(1) unfolding unsettled_def by simp
  have "unsettled N M' Q' \<subseteq> unsettled N M Q" using assms(5) unfolding unsettled_def by blast
  moreover have "u \<in> unsettled N M Q" and "u \<notin> unsettled N M' Q'"
    using assms(2,3,4) unfolding unsettled_def by simp_all
  ultimately have "unsettled N M' Q' \<subset> unsettled N M Q" by blast
  then have "card (unsettled N M' Q') < card (unsettled N M Q)"
    using fin by (rule psubset_card_mono [rotated])
  then show ?thesis unfolding search_rel_def by auto
qed

lemma stale_step:
  assumes "finite N" and "outer_inv N M Q" and "closed_inv adj g M Q" and "Q \<noteq> []"
    and "fst (heappop Q) = (c, u)" and "M u = Some cu" and "cu \<noteq> c" and "adj g u = Inr es"
  shows "relax_all u es M Q0 = Inr (M, Q0)"
    and "outer_inv N M (remove1 (c, u) Q)"
    and "((M, remove1 (c, u) Q), (M, Q)) \<in> search_rel N"
proof -
  have qs: "queue_sound M Q" using assms(2) unfolding outer_inv_def by simp
  have rel: "relaxed adj g M u" by (rule stale_relaxed(1) [OF qs assms(3,4,5,6,7)])
  then have "\<forall>e w. (e, w) \<in> set es \<longrightarrow> (\<exists>cw. M w = Some cw \<and> cw \<le> cu + e)"
    using assms(6,8) unfolding relaxed_def by auto
  then show "relax_all u es M Q0 = Inr (M, Q0)" using assms(6) by (intro relax_all_noop)
  have "\<forall>cv v. (c, u) = (cv, v) \<longrightarrow> M v \<noteq> Some cv" using assms(6,7) by auto
  then show "outer_inv N M (remove1 (c, u) Q)" using assms(2) by (intro outer_inv_remove1)
  have mem: "(c, u) \<in> set Q" using heappop_mem [OF assms(4)] assms(5) by simp
  have "length (remove1 (c, u) Q) < length Q"
    using mem assms(4) by (simp add: length_remove1 length_greater_0_conv)
  moreover have "unsettled N M (remove1 (c, u) Q) \<subseteq> unsettled N M Q"
  proof -
    have "settled M (remove1 (c, u) Q) v" if s: "settled M Q v" for v
      using s by (rule settled_remove1)
    then show ?thesis unfolding unsettled_def by blast
  qed
  ultimately show "((M, remove1 (c, u) Q), (M, Q)) \<in> search_rel N"
    using assms(1) by (intro search_rel_shorter)
qed

lemma fresh_inner_entry:
  assumes "outer_inv N M Q" and "Q \<noteq> []" and "fst (heappop Q) = (c, u)" and "M u = Some c"
  shows "inner_inv N u c ({v. settled M Q v} \<union> {u}) M (remove1 (c, u) Q)"
proof -
  let ?Q = "remove1 (c, u) Q"
  have dom: "dom M \<subseteq> N" and qs: "queue_sound M Q" and dis: "distinct Q"
    and ub: "\<forall>v cv c w. M v = Some cv \<longrightarrow> (cv, v) \<notin> set Q \<longrightarrow> (c, w) \<in> set Q \<longrightarrow> cv \<le> c"
    using assms(1) unfolding outer_inv_def by auto
  have mem: "(c, u) \<in> set Q" using heappop_mem [OF assms(2)] assms(3) by simp
  have sub: "set ?Q \<subseteq> set Q" by (rule set_remove1_subset)
  have 2: "queue_sound M ?Q" using qs sub unfolding queue_sound_def by blast
  have 3: "distinct ?Q" using dis by simp
  have 5: "\<forall>c' w. (c', w) \<in> set ?Q \<longrightarrow> c \<le> c'"
    using sub heappop_least_cost [OF _ assms(3)] by blast
  have 6: "(c, u) \<notin> set ?Q" using dis by simp
  have 7: "\<forall>v cv. M v = Some cv \<longrightarrow> (cv, v) \<notin> set ?Q \<longrightarrow> cv \<le> c"
  proof (intro allI impI)
    fix v cv
    assume a: "M v = Some cv" "(cv, v) \<notin> set ?Q"
    show "cv \<le> c"
    proof (cases "(cv, v) = (c, u)")
      case True
      then show ?thesis by simp
    next
      case False
      then have "(cv, v) \<notin> set Q" using a(2) by simp
      then show ?thesis using ub a(1) mem by blast
    qed
  qed
  have 8: "\<forall>v \<in> {v. settled M Q v} \<union> {u}. settled M ?Q v"
  proof
    fix v
    assume "v \<in> {v. settled M Q v} \<union> {u}"
    then consider "settled M Q v" | "v = u" by blast
    then show "settled M ?Q v"
    proof cases
      case 1
      then show ?thesis by (rule settled_remove1)
    next
      case 2
      then show ?thesis using assms(4) 6 unfolding settled_def by blast
    qed
  qed
  show ?thesis unfolding inner_inv_def using dom 2 3 assms(4) 5 6 7 8 by blast
qed

lemma inner_inv_exit:
  assumes "inner_inv N u c S M Q"
  shows "outer_inv N M Q" and "\<forall>v \<in> S. settled M Q v"
proof -
  have dom: "dom M \<subseteq> N" and qs: "queue_sound M Q" and dis: "distinct Q"
    and lb: "\<forall>c' w. (c', w) \<in> set Q \<longrightarrow> c \<le> c'"
    and ub: "\<forall>v cv. M v = Some cv \<longrightarrow> (cv, v) \<notin> set Q \<longrightarrow> cv \<le> c"
    and st: "\<forall>v \<in> S. settled M Q v"
    using assms unfolding inner_inv_def by auto
  show "\<forall>v \<in> S. settled M Q v" by (rule st)
  have "\<forall>v cv c' w. M v = Some cv \<longrightarrow> (cv, v) \<notin> set Q \<longrightarrow> (c', w) \<in> set Q \<longrightarrow> cv \<le> c'"
  proof (intro allI impI)
    fix v cv c' w
    assume "M v = Some cv" "(cv, v) \<notin> set Q" "(c', w) \<in> set Q"
    then have "cv \<le> c" and "c \<le> c'" using ub lb by blast+
    then show "cv \<le> c'" by simp
  qed
  then show "outer_inv N M Q" unfolding outer_inv_def using dom qs dis by blast
qed

lemma good_edge:
  assumes "good adj g N" and "u \<in> N" and "adj g u = Inr es" and "(e, w) \<in> set es"
  shows "w \<in> N" and "0 \<le> e"
proof -
  obtain es' where es': "adj g u = Inr es'" "\<forall>e w. (e, w) \<in> set es' \<longrightarrow> w \<in> N \<and> 0 \<le> e"
    using assms(1,2) unfolding good_def by blast
  then have "es' = es" using assms(3) by simp
  then show "w \<in> N" and "0 \<le> e" using es'(2) assms(4) by blast+
qed

lemma inner_inv_relax_all:
  assumes "good adj g N" and "inner_inv N u c S M Q" and "adj g u = Inr es"
    and "relax_all u es M Q = Inr (M', Q')"
  shows "inner_inv N u c S M' Q'"
proof (rule relax_all_invariant [OF assms(4), where I = "inner_inv N u c S"])
  show "inner_inv N u c S M Q" by (rule assms(2))
next
  fix M :: costs and Q :: queue and e w cu
  assume inv: "inner_inv N u c S M Q" and ew: "(e, w) \<in> set es" and cu: "M u = Some cu"
    and upd: "\<forall>cw. M w = Some cw \<longrightarrow> e + cu < cw"
  have c: "cu = c" and uN: "u \<in> N" using inv cu unfolding inner_inv_def by auto
  have "w \<in> N" and "0 \<le> e" using good_edge [OF assms(1) uN assms(3) ew] by simp_all
  then show "inner_inv N u c S (M(w \<mapsto> e + cu)) ((e + cu, w) # Q)"
    using inner_inv_update [OF inv] upd c by simp
qed

lemma fresh_step:
  assumes "good adj g N" and "outer_inv N M Q" and "Q \<noteq> []" and "fst (heappop Q) = (c, u)"
    and "M u = Some c" and "adj g u = Inr es"
    and "relax_all u es M (remove1 (c, u) Q) = Inr (M', Q')"
  shows "outer_inv N M' Q'" and "((M', Q'), (M, Q)) \<in> search_rel N"
    and "\<forall>v. settled M Q v \<longrightarrow> settled M' Q' v"
proof -
  let ?S = "{v. settled M Q v} \<union> {u}"
  have "inner_inv N u c ?S M (remove1 (c, u) Q)"
    by (rule fresh_inner_entry [OF assms(2,3,4,5)])
  then have inner: "inner_inv N u c ?S M' Q'"
    by (rule inner_inv_relax_all [OF assms(1) _ assms(6,7)])
  show "outer_inv N M' Q'" by (rule inner_inv_exit(1) [OF inner])
  have st: "\<forall>v \<in> ?S. settled M' Q' v" by (rule inner_inv_exit(2) [OF inner])
  then show keep: "\<forall>v. settled M Q v \<longrightarrow> settled M' Q' v" by blast
  have mem: "(c, u) \<in> set Q" using heappop_mem [OF assms(3)] assms(4) by simp
  have "\<not> settled M Q u" using assms(5) mem unfolding settled_def by simp
  moreover have "settled M' Q' u" using st by blast
  moreover have "u \<in> N" using assms(2,5) unfolding outer_inv_def by blast
  moreover have "finite N" using assms(1) unfolding good_def by blast
  ultimately show "((M', Q'), (M, Q)) \<in> search_rel N"
    using keep search_rel_settles [of N u M Q M' Q'] by blast
qed

subsection \<open>Termination of the cost-table search\<close>

lemma dsa_loop_unfold:
  assumes "Q \<noteq> []" and "fst (heappop Q) = (c, u)" and "adj g u = Inr es"
    and "relax_all u es M (remove1 (c, u) Q) = Inr (M', Q')"
  shows "dsa_loop adj g M Q = dsa_loop adj g M' Q'"
  using assms by (subst dsa_loop.simps) (simp add: heappop_snd Let_def)

lemma dsa_loop_total:
  assumes "good adj g N"
  shows "outer_inv N M Q \<Longrightarrow> closed_inv adj g M Q \<Longrightarrow> \<exists>M'. dsa_loop adj g M Q = Some (Inr M')"
  using wf_search_rel [of N]
proof (induction "(M, Q)" arbitrary: M Q rule: wf_induct_rule)
  case less
  show ?case
  proof (cases "Q = []")
    case True
    then show ?thesis by (subst dsa_loop.simps) simp
  next
    case False
    obtain c u where m: "fst (heappop Q) = (c, u)" by (cases "fst (heappop Q)")
    have qs: "queue_sound M Q" and dom: "dom M \<subseteq> N"
      using less.prems(1) unfolding outer_inv_def by auto
    obtain cu where cu: "M u = Some cu" using pop_tracked [OF qs False m] by blast
    then have uN: "u \<in> N" using dom by blast
    then obtain es where es: "adj g u = Inr es" using assms unfolding good_def by blast
    obtain M' Q' where run: "relax_all u es M (remove1 (c, u) Q) = Inr (M', Q')"
      using relax_all_returns [of M u es "remove1 (c, u) Q"] cu by auto
    have cl: "closed_inv adj g M' Q'" by (rule closed_inv_step [OF less.prems(2) es run])
    have "outer_inv N M' Q' \<and> ((M', Q'), (M, Q)) \<in> search_rel N"
    proof (cases "cu = c")
      case True
      then show ?thesis using fresh_step(1,2) [OF assms less.prems(1) False m _ es run] cu by simp
    next
      case ne: False
      have fin: "finite N" using assms unfolding good_def by blast
      note st = stale_step [OF fin less.prems(1,2) False m cu ne es]
      have "M' = M" and "Q' = remove1 (c, u) Q" using st(1) [of "remove1 (c, u) Q"] run by simp_all
      then show ?thesis using st(2,3) by simp
    qed
    then have "\<exists>M''. dsa_loop adj g M' Q' = Some (Inr M'')" using less.hyps cl by blast
    then show ?thesis using dsa_loop_unfold [where adj = adj and g = g, OF False m es run] by simp
  qed
qed

lemma outer_inv_init: "s \<in> N \<Longrightarrow> outer_inv N [s \<mapsto> 0] [(0, s)]"
  unfolding outer_inv_def queue_sound_def by auto

subsection \<open>The relaxation loop with predecessors\<close>

lemma costs_of_upd: "costs_of (T(w \<mapsto> (c, p))) = (costs_of T)(w \<mapsto> c)"
  by (auto simp: costs_of_def)

lemma relax_costs:
  "relax_all u es (costs_of T) Q =
     (case relax u es T Q of Inl e \<Rightarrow> Inl e | Inr tq \<Rightarrow> Inr (costs_of (fst tq), snd tq))"
proof (induction es arbitrary: T Q)
  case Nil
  show ?case by simp
next
  case (Cons ew es)
  obtain e w where ew: "ew = (e, w)" by (cases ew)
  show ?case
  proof (cases "T u")
    case None
    then show ?thesis by (simp add: ew costs_of_def)
  next
    case (Some cur)
    then have cu: "costs_of T u = Some (fst cur)" by (simp add: costs_of_def)
    let ?T1 = "T(w \<mapsto> (e + fst cur, Some u))" and ?Q1 = "heappush Q (e + fst cur, w)"
    have IH1: "relax_all u es ((costs_of T)(w \<mapsto> e + fst cur)) ?Q1 =
        (case relax u es ?T1 ?Q1 of Inl e \<Rightarrow> Inl e | Inr tq \<Rightarrow> Inr (costs_of (fst tq), snd tq))"
      using Cons.IH [of ?T1 ?Q1] by (simp only: costs_of_upd)
    show ?thesis
    proof (cases "T w")
      case None
      then have cw: "costs_of T w = None" by (simp add: costs_of_def)
      have "relax_all u (ew # es) (costs_of T) Q =
          relax_all u es ((costs_of T)(w \<mapsto> e + fst cur)) ?Q1"
        by (simp add: ew cu cw Let_def)
      moreover have "relax u (ew # es) T Q = relax u es ?T1 ?Q1"
        by (simp add: ew Some None Let_def)
      ultimately show ?thesis using IH1 by (simp only:)
    next
      case old: (Some old)
      then have cw: "costs_of T w = Some (fst old)" by (simp add: costs_of_def)
      show ?thesis
      proof (cases "e + fst cur < fst old")
        case True
        have "relax_all u (ew # es) (costs_of T) Q =
            relax_all u es ((costs_of T)(w \<mapsto> e + fst cur)) ?Q1"
          using True by (simp add: ew cu cw Let_def)
        moreover have "relax u (ew # es) T Q = relax u es ?T1 ?Q1"
          using True by (simp add: ew Some old Let_def)
        ultimately show ?thesis using IH1 by (simp only:)
      next
        case False
        have "relax_all u (ew # es) (costs_of T) Q = relax_all u es (costs_of T) Q"
          using False by (simp add: ew cu cw Let_def)
        moreover have "relax u (ew # es) T Q = relax u es T Q"
          using False by (simp add: ew Some old Let_def)
        ultimately show ?thesis using Cons.IH [of T Q] by (simp only:)
      qed
    qed
  qed
qed

lemma relax_Inr_costs:
  assumes "relax u es T Q = Inr (T', Q')"
  shows "relax_all u es (costs_of T) Q = Inr (costs_of T', Q')"
  using relax_costs [of u es T Q] assms by simp

lemma relax_returns:
  assumes "T u \<noteq> None"
  shows "\<exists>T' Q'. relax u es T Q = Inr (T', Q')"
proof -
  have "costs_of T u \<noteq> None" using assms by (simp add: costs_of_def)
  then obtain M' Q' where "relax_all u es (costs_of T) Q = Inr (M', Q')"
    using relax_all_returns by blast
  then show ?thesis using relax_costs [of u es T Q] by (cases "relax u es T Q") auto
qed

lemma relax_invariant:
  assumes "relax u es T Q = Inr (T', Q')" and "I T Q"
    and "\<And>T Q e w cu. I T Q \<Longrightarrow> (e, w) \<in> set es \<Longrightarrow> costs_of T u = Some cu \<Longrightarrow>
           (\<forall>cw. costs_of T w = Some cw \<longrightarrow> e + cu < cw) \<Longrightarrow>
           I (T(w \<mapsto> (e + cu, Some u))) ((e + cu, w) # Q)"
  shows "I T' Q'"
  using assms
proof (induction es arbitrary: T Q)
  case Nil
  then show ?case by simp
next
  case (Cons ew es)
  obtain e w where ew: "ew = (e, w)" by (cases ew)
  obtain cur where cur: "T u = Some cur"
    using Cons.prems(1) by (cases "T u") (simp_all add: ew)
  let ?cu = "fst cur"
  have cu: "costs_of T u = Some ?cu" using cur by (simp add: costs_of_def)
  have step: "I (T(w \<mapsto> (e + cu, Some u))) ((e + cu, w) # Q)"
    if "I T Q" and "(e, w) \<in> set es" and "costs_of T u = Some cu"
      and "\<forall>cw. costs_of T w = Some cw \<longrightarrow> e + cu < cw" for T Q e w cu
  proof -
    have "(e, w) \<in> set (ew # es)" using that(2) by simp
    then show ?thesis by (rule Cons.prems(3) [OF that(1) _ that(3,4)])
  qed
  show ?case
  proof (cases "\<forall>cw. costs_of T w = Some cw \<longrightarrow> e + ?cu < cw")
    case True
    have run: "relax u es (T(w \<mapsto> (e + ?cu, Some u))) ((e + ?cu, w) # Q) = Inr (T', Q')"
    proof (cases "T w")
      case None
      then show ?thesis using Cons.prems(1) cur by (simp add: ew heappush_def Let_def)
    next
      case (Some old)
      then have "e + ?cu < fst old" using True by (simp add: costs_of_def)
      then show ?thesis using Cons.prems(1) cur Some by (simp add: ew heappush_def Let_def)
    qed
    have "(e, w) \<in> set (ew # es)" by (simp add: ew)
    then have "I (T(w \<mapsto> (e + ?cu, Some u))) ((e + ?cu, w) # Q)"
      by (rule Cons.prems(3) [OF Cons.prems(2) _ cu True])
    then show ?thesis using Cons.IH [OF run _ step] by blast
  next
    case False
    then obtain cw where cw: "costs_of T w = Some cw" "\<not> e + ?cu < cw" by blast
    then obtain old where old: "T w = Some old" "fst old = cw" by (auto simp: costs_of_def)
    have run: "relax u es T Q = Inr (T', Q')"
      using Cons.prems(1) cur old cw(2) by (simp add: ew heappush_def Let_def)
    show ?thesis using Cons.IH [OF run Cons.prems(2) step] by blast
  qed
qed

lemma relax_noop:
  assumes "costs_of T u = Some cu"
    and "\<forall>e w. (e, w) \<in> set es \<longrightarrow> (\<exists>cw. costs_of T w = Some cw \<and> cw \<le> cu + e)"
  shows "relax u es T Q = Inr (T, Q)"
  using assms(2)
proof (induction es)
  case Nil
  show ?case by simp
next
  case (Cons ew es)
  obtain e w where ew: "ew = (e, w)" by (cases ew)
  have "(e, w) \<in> set (ew # es)" by (simp add: ew)
  then obtain cw where cw: "costs_of T w = Some cw" "cw \<le> cu + e" using Cons.prems by blast
  obtain cur where cur: "T u = Some cur" "fst cur = cu" using assms(1) by (auto simp: costs_of_def)
  obtain old where old: "T w = Some old" "fst old = cw" using cw(1) by (auto simp: costs_of_def)
  have "\<forall>e w. (e, w) \<in> set es \<longrightarrow> (\<exists>cw. costs_of T w = Some cw \<and> cw \<le> cu + e)"
    using Cons.prems by (meson list.set_intros(2))
  then have "relax u es T Q = Inr (T, Q)" by (rule Cons.IH)
  then show ?case using cw(2) cur old by (simp add: ew Let_def add.commute)
qed

subsection \<open>Predecessor chains\<close>

lemma chain_hd: "chain T v ps \<Longrightarrow> ps \<noteq> [] \<and> hd ps = v"
  by (induction rule: chain.induct) auto

lemma chain_reconstruct: "chain T v ps \<Longrightarrow> reconstruct T v acc = Some (Inr (acc @ ps))"
proof (induction arbitrary: acc rule: chain.induct)
  case (chain_root v c)
  then show ?case by (subst reconstruct.simps) simp
next
  case (chain_link v c p ps)
  have "reconstruct T v acc = reconstruct T p (acc @ [v])"
    using chain_link.hyps(1) by (subst reconstruct.simps) simp
  then show ?case using chain_link.IH [of "acc @ [v]"] by simp
qed

lemma chain_upd: "chain T v ps \<Longrightarrow> w \<notin> set ps \<Longrightarrow> chain (T(w \<mapsto> x)) v ps"
proof (induction rule: chain.induct)
  case (chain_root v c)
  then have "(T(w \<mapsto> x)) v = Some (c, None)" by simp
  then show ?case by (rule chain.chain_root)
next
  case (chain_link v c p ps)
  have wv: "w \<noteq> v" and wps: "w \<notin> set ps" using chain_link.prems by simp_all
  have "(T(w \<mapsto> x)) v = Some (c, Some p)" using wv chain_link.hyps(1) by simp
  moreover have "chain (T(w \<mapsto> x)) p ps" using wps by (rule chain_link.IH)
  ultimately show ?case by (rule chain.chain_link)
qed

lemma chain_tail_settled:
  assumes "chain T v ps" and "\<forall>v c p. T v = Some (c, Some p) \<longrightarrow> settled M Q p"
  shows "\<forall>x \<in> set (tl ps). settled M Q x"
  using assms(1)
proof (induction rule: chain.induct)
  case (chain_root v c)
  show ?case by simp
next
  case (chain_link v c p ps)
  have p: "settled M Q p" using assms(2) chain_link.hyps(1) by blast
  have "ps \<noteq> []" and "hd ps = p" using chain_hd [OF chain_link.hyps(2)] by simp_all
  then have "set ps = insert p (set (tl ps))" by (cases ps) auto
  then show ?case using p chain_link.IH by simp
qed

lemma chain_walk:
  assumes "pred_inv adj g s T Q" and "chain T v ps" and "costs_of T v = Some cv"
  shows "\<exists>k. walk adj g s (rev ps) k \<and> k \<le> cv"
  using assms(2,3)
proof (induction arbitrary: cv rule: chain.induct)
  case (chain_root v c)
  have "v = s" and "c = 0" using assms(1) chain_root.hyps unfolding pred_inv_def by blast+
  moreover have "cv = c" using chain_root by (simp add: costs_of_def)
  ultimately show ?case using walk_start [of adj g s] by auto
next
  case (chain_link v c p ps)
  have cv: "cv = c" using chain_link.hyps(1) chain_link.prems by (simp add: costs_of_def)
  obtain cp e where cp: "costs_of T p = Some cp" and e: "(e, v) \<in> edges adj g p"
    and le: "cp + e \<le> c"
    using assms(1) chain_link.hyps(1) unfolding pred_inv_def by blast
  obtain k where k: "walk adj g s (rev ps) k" "k \<le> cp" using chain_link.IH [OF cp] by blast
  have "ps \<noteq> []" and "hd ps = p" using chain_hd [OF chain_link.hyps(2)] by simp_all
  then have "last (rev ps) = p" by (simp add: last_rev)
  then have "walk adj g s (rev ps @ [v]) (k + e)" using k(1) e by (intro walk_step) simp_all
  then show ?case using k(2) le cv by (intro exI [of _ "k + e"]) simp
qed

lemma pred_inv_remove1:
  assumes "pred_inv adj g s T Q"
  shows "pred_inv adj g s T (remove1 x Q)"
proof -
  have "settled (costs_of T) (remove1 x Q) p" if s: "settled (costs_of T) Q p" for p
    using s by (rule settled_remove1)
  then show ?thesis using assms unfolding pred_inv_def by blast
qed

lemma pred_inv_update:
  assumes inn: "inner_inv N u c S (costs_of T) Q" and pinv: "pred_inv adj g s T Q"
    and edge: "(e, w) \<in> edges adj g u" and e0: "0 \<le> e"
    and upd: "\<forall>cw. costs_of T w = Some cw \<longrightarrow> e + c < cw"
  shows "pred_inv adj g s (T(w \<mapsto> (e + c, Some u))) ((e + c, w) # Q)"
proof -
  let ?M = "costs_of T" and ?T = "T(w \<mapsto> (e + c, Some u))" and ?Q = "(e + c, w) # Q"
  have mu: "?M u = Some c" and nu: "(c, u) \<notin> set Q"
    and ub: "\<forall>v cv. ?M v = Some cv \<longrightarrow> (cv, v) \<notin> set Q \<longrightarrow> cv \<le> c"
    using inn unfolding inner_inv_def by auto
  have p1: "\<forall>v c p. T v = Some (c, Some p) \<longrightarrow>
        settled ?M Q p \<and> (\<exists>cp e. ?M p = Some cp \<and> (e, v) \<in> edges adj g p \<and> cp + e \<le> c)"
    and p2: "\<forall>v c. T v = Some (c, None) \<longrightarrow> v = s \<and> c = 0"
    and p3: "\<forall>v. T v \<noteq> None \<longrightarrow> (\<exists>ps. chain T v ps)"
    using pinv unfolding pred_inv_def by auto
  have wu: "w \<noteq> u" using upd mu e0 by auto
  have nonset: "\<not> settled ?M Q w"
  proof
    assume "settled ?M Q w"
    then obtain cw where cw: "?M w = Some cw" "(cw, w) \<notin> set Q" unfolding settled_def by blast
    then have "cw \<le> c" using ub by blast
    moreover have "e + c < cw" using upd cw(1) by blast
    ultimately show False using e0 by simp
  qed
  have cm: "costs_of ?T = ?M(w \<mapsto> e + c)" by (rule costs_of_upd)
  have keep: "settled (costs_of ?T) ?Q x" if sx: "settled ?M Q x" for x
  proof -
    obtain cx where cx: "?M x = Some cx" "(cx, x) \<notin> set Q" using sx unfolding settled_def by blast
    have "x \<noteq> w" using sx nonset by blast
    then show ?thesis using cx unfolding settled_def cm by simp
  qed
  have su: "settled (costs_of ?T) ?Q u" using mu nu wu unfolding settled_def cm by simp
  have notin: "w \<notin> set ps" if ch: "chain T v ps" and vw: "v \<noteq> w" for v ps
  proof -
    have "\<forall>v c p. T v = Some (c, Some p) \<longrightarrow> settled ?M Q p" using p1 by blast
    then have "\<forall>x \<in> set (tl ps). settled ?M Q x" by (rule chain_tail_settled [OF ch])
    then have "w \<notin> set (tl ps)" using nonset by blast
    moreover have "ps \<noteq> []" and "hd ps = v" using chain_hd [OF ch] by simp_all
    ultimately show ?thesis using vw by (cases ps) auto
  qed
  have "T u \<noteq> None" using mu by (auto simp: costs_of_def)
  then obtain psu where psu: "chain T u psu" using p3 by blast
  then have chu: "chain ?T u psu" using notin [OF psu] wu by (intro chain_upd) auto
  have 1: "\<forall>v c' p. ?T v = Some (c', Some p) \<longrightarrow>
        settled (costs_of ?T) ?Q p \<and>
        (\<exists>cp e. costs_of ?T p = Some cp \<and> (e, v) \<in> edges adj g p \<and> cp + e \<le> c')"
  proof (intro allI impI)
    fix v c' p
    assume a: "?T v = Some (c', Some p)"
    show "settled (costs_of ?T) ?Q p \<and>
        (\<exists>cp e. costs_of ?T p = Some cp \<and> (e, v) \<in> edges adj g p \<and> cp + e \<le> c')"
    proof (cases "v = w")
      case True
      then have "c' = e + c" and "p = u" using a by simp_all
      moreover have "costs_of ?T u = Some c" using mu wu unfolding cm by simp
      ultimately show ?thesis using su edge True by (auto simp: add.commute)
    next
      case False
      then have tv: "T v = Some (c', Some p)" using a by simp
      then obtain cp e' where sp: "settled ?M Q p" and cp: "?M p = Some cp"
        and e': "(e', v) \<in> edges adj g p" and le: "cp + e' \<le> c'"
        using p1 by blast
      have "p \<noteq> w" using sp nonset by blast
      then have "costs_of ?T p = Some cp" using cp unfolding cm by simp
      then show ?thesis using keep [OF sp] e' le by blast
    qed
  qed
  have 2: "\<forall>v c'. ?T v = Some (c', None) \<longrightarrow> v = s \<and> c' = 0"
  proof (intro allI impI)
    fix v c'
    assume a: "?T v = Some (c', None)"
    then have "v \<noteq> w" by auto
    then have "T v = Some (c', None)" using a by simp
    then show "v = s \<and> c' = 0" using p2 by blast
  qed
  have 3: "\<forall>v. ?T v \<noteq> None \<longrightarrow> (\<exists>ps. chain ?T v ps)"
  proof (intro allI impI)
    fix v
    assume a: "?T v \<noteq> None"
    show "\<exists>ps. chain ?T v ps"
    proof (cases "v = w")
      case True
      have "?T w = Some (e + c, Some u)" by simp
      then have "chain ?T w (w # psu)" using chu by (rule chain_link)
      then show ?thesis using True by blast
    next
      case False
      then have "T v \<noteq> None" using a by simp
      then obtain ps where ps: "chain T v ps" using p3 by blast
      have "chain ?T v ps" using ps notin [OF ps False] by (rule chain_upd)
      then show ?thesis by blast
    qed
  qed
  show ?thesis unfolding pred_inv_def using 1 2 3 by blast
qed

lemma pred_inv_step:
  assumes "good adj g N" and "outer_inv N (costs_of T) Q" and "closed_inv adj g (costs_of T) Q"
    and "pred_inv adj g s T Q" and "Q \<noteq> []" and "fst (heappop Q) = (c, u)"
    and "adj g u = Inr es" and "relax u es T (remove1 (c, u) Q) = Inr (T', Q')"
  shows "pred_inv adj g s T' Q'"
proof -
  let ?Q0 = "remove1 (c, u) Q"
  have qs: "queue_sound (costs_of T) Q" using assms(2) unfolding outer_inv_def by simp
  obtain cu where cu: "costs_of T u = Some cu" using pop_tracked [OF qs assms(5,6)] by blast
  have p0: "pred_inv adj g s T ?Q0" by (rule pred_inv_remove1 [OF assms(4)])
  show ?thesis
  proof (cases "cu = c")
    case True
    let ?S = "{v. settled (costs_of T) Q v} \<union> {u}"
    let ?I = "\<lambda>T Q. inner_inv N u c ?S (costs_of T) Q \<and> pred_inv adj g s T Q"
    have entry: "inner_inv N u c ?S (costs_of T) ?Q0"
      using fresh_inner_entry [OF assms(2,5,6)] cu True by simp
    have "?I T' Q'"
    proof (rule relax_invariant [OF assms(8), where I = ?I])
      show "?I T ?Q0" using entry p0 by simp
    next
      fix T :: tracking and Q :: queue and e w cu
      assume inv: "?I T Q" and ew: "(e, w) \<in> set es" and cu: "costs_of T u = Some cu"
        and upd: "\<forall>cw. costs_of T w = Some cw \<longrightarrow> e + cu < cw"
      have inn: "inner_inv N u c ?S (costs_of T) Q" and pinv: "pred_inv adj g s T Q"
        using inv by simp_all
      have c: "cu = c" and uN: "u \<in> N" using inn cu unfolding inner_inv_def by auto
      have wN: "w \<in> N" and e0: "0 \<le> e" using good_edge [OF assms(1) uN assms(7) ew] by simp_all
      have edge: "(e, w) \<in> edges adj g u" using ew assms(7) by (simp add: edges_def)
      have updc: "\<forall>cw. costs_of T w = Some cw \<longrightarrow> e + c < cw" using upd c by simp
      have "inner_inv N u c ?S ((costs_of T)(w \<mapsto> e + c)) ((e + c, w) # Q)"
        by (rule inner_inv_update [OF inn wN e0 updc])
      then have "inner_inv N u c ?S (costs_of (T(w \<mapsto> (e + c, Some u)))) ((e + c, w) # Q)"
        by (simp only: costs_of_upd)
      moreover have "pred_inv adj g s (T(w \<mapsto> (e + c, Some u))) ((e + c, w) # Q)"
        by (rule pred_inv_update [OF inn pinv edge e0 updc])
      ultimately show "?I (T(w \<mapsto> (e + cu, Some u))) ((e + cu, w) # Q)" using c by simp
    qed
    then show ?thesis by simp
  next
    case False
    have "relaxed adj g (costs_of T) u" by (rule stale_relaxed(1) [OF qs assms(3,5,6) cu False])
    then have "\<forall>e w. (e, w) \<in> set es \<longrightarrow> (\<exists>cw. costs_of T w = Some cw \<and> cw \<le> cu + e)"
      using cu assms(7) unfolding relaxed_def by auto
    then have "relax u es T ?Q0 = Inr (T, ?Q0)" using cu by (intro relax_noop)
    then have "T' = T" and "Q' = ?Q0" using assms(8) by simp_all
    then show ?thesis using p0 by simp
  qed
qed

lemma dest_inv_step:
  assumes "dest_inv d T Q" and "u \<noteq> d" and "relax u es T (remove1 (c, u) Q) = Inr (T', Q')"
  shows "dest_inv d T' Q'"
proof (rule relax_invariant [OF assms(3), where I = "dest_inv d"])
  show "dest_inv d T (remove1 (c, u) Q)"
    unfolding dest_inv_def
  proof
    assume "T d \<noteq> None"
    then obtain c' where "(c', d) \<in> set Q" using assms(1) unfolding dest_inv_def by blast
    then have "(c', d) \<in> set (remove1 (c, u) Q)" using assms(2) by simp
    then show "\<exists>c'. (c', d) \<in> set (remove1 (c, u) Q)" by blast
  qed
next
  fix T :: tracking and Q :: queue and e w cu
  assume "dest_inv d T Q"
  then show "dest_inv d (T(w \<mapsto> (e + cu, Some u))) ((e + cu, w) # Q)"
    unfolding dest_inv_def by (cases "w = d") auto
qed

subsection \<open>Total correctness of the single-destination search\<close>

lemma walk_hd: "walk adj g s ns k \<Longrightarrow> ns \<noteq> [] \<and> hd ns = s"
  by (induction rule: walk.induct) (auto simp: hd_append)

lemma pop_optimal:
  assumes "good adj g N" and "s \<in> N" and "closed_inv adj g M Q" and "start_inv s M"
    and "fst (heappop Q) = (c, d)" and "walk adj g s ns k"
  shows "last ns \<in> N \<and> ((\<exists>cv. M (last ns) = Some cv \<and> cv \<le> k) \<or> c \<le> k)"
  using assms(6)
proof (induction rule: walk.induct)
  case walk_start
  then show ?case using assms(2,4) unfolding start_inv_def by auto
next
  case (walk_step ns k e w)
  have uN: "last ns \<in> N" using walk_step.IH by simp
  then obtain es where es: "adj g (last ns) = Inr es" using assms(1) unfolding good_def by blast
  then have ew: "(e, w) \<in> set es" using walk_step.hyps(2) by (simp add: edges_def)
  have wN: "w \<in> N" and e0: "0 \<le> e" using good_edge [OF assms(1) uN es ew] by simp_all
  have "(\<exists>cv. M w = Some cv \<and> cv \<le> k + e) \<or> c \<le> k + e"
  proof (cases "c \<le> k")
    case True
    then show ?thesis using e0 by simp
  next
    case False
    then obtain cv where cv: "M (last ns) = Some cv" "cv \<le> k" using walk_step.IH by blast
    then consider "(cv, last ns) \<in> set Q" | "relaxed adj g M (last ns)"
      using assms(3) unfolding closed_inv_def by blast
    then show ?thesis
    proof cases
      case 1
      then have "c \<le> cv" using assms(5) by (rule heappop_least_cost)
      then show ?thesis using cv(2) e0 by simp
    next
      case 2
      then obtain cw where "M w = Some cw" "cw \<le> cv + e"
        using cv(1) es ew unfolding relaxed_def by fastforce
      then show ?thesis using cv(2) by simp
    qed
  qed
  then show ?case using wN by simp
qed

lemma dsp_loop_unfold:
  assumes "Q \<noteq> []" and "fst (heappop Q) = (c, u)" and "u \<noteq> d" and "adj g u = Inr es"
    and "relax u es T (remove1 (c, u) Q) = Inr (T', Q')"
  shows "dsp_loop adj g d T Q = dsp_loop adj g d T' Q'"
  using assms by (subst dsp_loop.simps) (simp add: heappop_snd Let_def)

lemma dsp_loop_found:
  assumes "Q \<noteq> []" and "fst (heappop Q) = (c, d)" and "chain T d ps"
  shows "dsp_loop adj g d T Q = Some (Inr (Some ps))"
  using assms(1,2) chain_reconstruct [OF assms(3), of "[]"]
  by (subst dsp_loop.simps) (simp add: Let_def)

lemma dsp_loop_total:
  assumes "good adj g N" and "s \<in> N"
  shows "outer_inv N (costs_of T) Q \<Longrightarrow> basic_inv adj g s (costs_of T) Q \<Longrightarrow>
     pred_inv adj g s T Q \<Longrightarrow> dest_inv d T Q \<Longrightarrow>
     (\<exists>p k. dsp_loop adj g d T Q = Some (Inr (Some p)) \<and> shortest_walk adj g s d (rev p) k) \<or>
     (dsp_loop adj g d T Q = Some (Inr None) \<and> (\<forall>ns k. walk adj g s ns k \<longrightarrow> last ns \<noteq> d))"
  using wf_search_rel [of N]
proof (induction "(costs_of T, Q)" arbitrary: T Q rule: wf_induct_rule)
  case less
  note outer = less.prems(1) and basic = less.prems(2) and pinv = less.prems(3)
    and dinv = less.prems(4)
  have cl: "closed_inv adj g (costs_of T) Q" and st: "start_inv s (costs_of T)"
    using basic unfolding basic_inv_def by simp_all
  show ?case
  proof (cases "Q = []")
    case True
    have "last ns \<noteq> d" if w: "walk adj g s ns k" for ns k
    proof
      assume "last ns = d"
      then have "costs_of T d \<noteq> None" using basic_inv_final(3) [OF _ w] basic True by force
      then have "T d \<noteq> None" by (simp add: costs_of_def)
      then show False using dinv True unfolding dest_inv_def by simp
    qed
    moreover have "dsp_loop adj g d T Q = Some (Inr None)"
      using True by (subst dsp_loop.simps) simp
    ultimately show ?thesis by blast
  next
    case False
    obtain c u where m: "fst (heappop Q) = (c, u)" by (cases "fst (heappop Q)")
    have qs: "queue_sound (costs_of T) Q" and dom: "dom (costs_of T) \<subseteq> N"
      using outer unfolding outer_inv_def by auto
    obtain cu where cu: "costs_of T u = Some cu" "cu \<le> c" using pop_tracked [OF qs False m] by blast
    then have uN: "u \<in> N" using dom by blast
    have tu: "T u \<noteq> None" using cu(1) by (auto simp: costs_of_def)
    show ?thesis
    proof (cases "u = d")
      case True
      obtain ps where ps: "chain T d ps" using pinv tu True unfolding pred_inv_def by blast
      have m': "fst (heappop Q) = (c, d)" using m True by simp
      have found: "dsp_loop adj g d T Q = Some (Inr (Some ps))"
        by (rule dsp_loop_found [OF False m' ps])
      obtain k where k: "walk adj g s (rev ps) k" "k \<le> cu"
        using chain_walk [OF pinv ps] cu(1) True by blast
      have "ps \<noteq> []" and "hd ps = d" using chain_hd [OF ps] by simp_all
      then have l: "last (rev ps) = d" by (simp add: last_rev)
      have opt: "cu \<le> k'" if w: "walk adj g s ns k'" and ld: "last ns = d" for ns k'
      proof -
        have "(\<exists>cv. costs_of T d = Some cv \<and> cv \<le> k') \<or> c \<le> k'"
          using pop_optimal [OF assms cl st _ w, of c d] m True ld by simp
        then show ?thesis using cu True by auto
      qed
      have "shortest_walk adj g s d (rev ps) k"
        unfolding shortest_walk_def
      proof (intro conjI allI impI)
        show "walk adj g s (rev ps) k" by (rule k(1))
        show "last (rev ps) = d" by (rule l)
        fix ns' k'
        assume "walk adj g s ns' k'" and "last ns' = d"
        then have "cu \<le> k'" by (rule opt)
        then show "k \<le> k'" using k(2) by simp
      qed
      then show ?thesis using found by blast
    next
      case False
      obtain es where es: "adj g u = Inr es" using assms(1) uN unfolding good_def by blast
      obtain T' Q' where run: "relax u es T (remove1 (c, u) Q) = Inr (T', Q')"
        using relax_returns [of T u es "remove1 (c, u) Q"] tu by blast
      have runc: "relax_all u es (costs_of T) (remove1 (c, u) Q) = Inr (costs_of T', Q')"
        by (rule relax_Inr_costs [OF run])
      have basic': "basic_inv adj g s (costs_of T') Q'" by (rule basic_inv_step [OF basic es runc])
      have pinv': "pred_inv adj g s T' Q'"
        by (rule pred_inv_step [OF assms(1) outer cl pinv \<open>Q \<noteq> []\<close> m es run])
      have dinv': "dest_inv d T' Q'" by (rule dest_inv_step [OF dinv False run])
      have "outer_inv N (costs_of T') Q' \<and> ((costs_of T', Q'), (costs_of T, Q)) \<in> search_rel N"
      proof (cases "cu = c")
        case True
        then show ?thesis
          using fresh_step(1,2) [OF assms(1) outer \<open>Q \<noteq> []\<close> m _ es runc] cu(1) by simp
      next
        case ne: False
        have fin: "finite N" using assms(1) unfolding good_def by blast
        note stale = stale_step [OF fin outer cl \<open>Q \<noteq> []\<close> m cu(1) ne es]
        have "costs_of T' = costs_of T" and "Q' = remove1 (c, u) Q"
          using stale(1) [of "remove1 (c, u) Q"] runc by simp_all
        then show ?thesis using stale(2,3) by simp
      qed
      then have "(\<exists>p k. dsp_loop adj g d T' Q' = Some (Inr (Some p)) \<and>
                   shortest_walk adj g s d (rev p) k) \<or>
                 (dsp_loop adj g d T' Q' = Some (Inr None) \<and>
                   (\<forall>ns k. walk adj g s ns k \<longrightarrow> last ns \<noteq> d))"
        using less.hyps basic' pinv' dinv' by blast
      then show ?thesis
        using dsp_loop_unfold [where adj = adj and g = g, OF \<open>Q \<noteq> []\<close> m False es run] by simp
    qed
  qed
qed

lemma pred_inv_init: "pred_inv adj g s [s \<mapsto> (0, None)] [(0, s)]"
proof -
  have "chain [s \<mapsto> (0, None)] s [s]" by (rule chain_root [of _ _ 0]) simp
  then show ?thesis unfolding pred_inv_def by (auto split: if_splits)
qed

lemma costs_of_init: "costs_of [s \<mapsto> (0, None)] = [s \<mapsto> 0]"
  by (auto simp: costs_of_def)

lemma dest_inv_init: "dest_inv d [s \<mapsto> (0, None)] [(0, s)]"
  unfolding dest_inv_def by (auto split: if_splits)

lemma good_shortest_path:
  assumes "good adj g N" and "s \<in> N"
  shows "(\<exists>p k. dijkstras_shortest_path s d g adj = Some (Inr (Some p)) \<and>
            shortest_walk adj g s d (rev p) k) \<or>
         (dijkstras_shortest_path s d g adj = Some (Inr None) \<and>
            (\<forall>ns k. walk adj g s ns k \<longrightarrow> last ns \<noteq> d))"
  unfolding dijkstras_shortest_path_def
  by (rule dsp_loop_total [OF assms])
     (simp_all only: costs_of_init outer_inv_init [OF assms(2)] basic_inv_init pred_inv_init
        dest_inv_init)

lemma good_to_all:
  assumes "good adj g N" and "s \<in> N"
  shows "\<exists>M. dijkstras_shortest_path_to_all s g adj = Some (Inr M)"
  unfolding dijkstras_shortest_path_to_all_def
  using dsa_loop_total [OF assms(1) outer_inv_init [OF assms(2)]] basic_inv_init [of adj g s]
  unfolding basic_inv_def by blast

lemma to_all_result:
  assumes "dijkstras_shortest_path_to_all s g adj = Some (Inr M)"
  shows "basic_inv adj g s M []"
  using dsa_loop_basic [of adj g "[s \<mapsto> 0]" "[(0, s)]" "Inr M" s] assms basic_inv_init [of adj g s]
  unfolding dijkstras_shortest_path_to_all_def by blast

section \<open>The searches on a level\<close>

subsection \<open>A well-formed level is a graph without negative costs\<close>

lemma adj_points_pos: "(p, d) \<in> set (adj_points a) \<Longrightarrow> 0 < d"
  by (auto simp: adj_points_def adj_offsets_def diag_def)

lemma navigation_edges_sym:
  assumes "navigation_edges lv a = Inr es" and "(c, b) \<in> set es"
    and "navigation_edges lv b = Inr es'"
  shows "(c, a) \<in> set es'"
proof -
  obtain d wa wb where a: "a \<notin> walls lv" and b: "b \<notin> walls lv"
    and d: "(b, d) \<in> set (adj_points a)" and wa: "weight lv a = Some wa"
    and wb: "weight lv b = Some wb" and c: "c = d * (wb + wa) / 2"
    using navigation_edges_mem [OF assms(1), of c b] assms(2) by blast
  have "(a, d) \<in> set (adj_points b)" using d by (rule adj_points_sym)
  moreover have "c = d * (wa + wb) / 2" using c by (simp add: add.commute)
  ultimately show ?thesis using navigation_edges_mem [OF assms(3), of c a] a b wa wb by blast
qed

lemma weighted_finite:
  assumes "finite (dom (spaces lv))" and "finite (dom (waypoints lv))"
  shows "finite {c. weight lv c \<noteq> None}"
proof -
  have "{c. weight lv c \<noteq> None} \<subseteq> dom (spaces lv) \<union> dom (waypoints lv)"
    by (auto simp: weight_def split: option.splits)
  then show ?thesis using assms by (meson finite_UnI finite_subset)
qed

lemma grid_good:
  assumes "wf_grid lv" and "s \<in> walls lv \<or> weight lv s \<noteq> None"
  shows "good navigation_edges lv (grid_cells lv s)"
  unfolding good_def
proof (intro conjI ballI)
  have "finite {c. weight lv c \<noteq> None}"
    using assms(1) weighted_finite unfolding wf_grid_def by blast
  then have "finite {c. c \<notin> walls lv \<and> weight lv c \<noteq> None}" by simp
  then show "finite (grid_cells lv s)" unfolding grid_cells_def by simp
next
  fix u
  assume uN: "u \<in> grid_cells lv s"
  show "\<exists>es. navigation_edges lv u = Inr es \<and>
          (\<forall>e w. (e, w) \<in> set es \<longrightarrow> w \<in> grid_cells lv s \<and> 0 \<le> e)"
  proof (cases "u \<in> walls lv")
    case True
    then show ?thesis by (simp add: navigation_edges_def)
  next
    case False
    then have wu: "weight lv u \<noteq> None" using uN assms(2) unfolding grid_cells_def by auto
    have cl: "\<And>p d. (p, d) \<in> set (adj_points u) \<Longrightarrow> p \<notin> walls lv \<Longrightarrow> weight lv p \<noteq> None"
      using assms(1) False wu unfolding wf_grid_def by blast
    obtain es where es: "navigation_edges lv u = Inr es"
      using navigation_edges_returns [of u lv] False wu cl by blast
    have "w \<in> grid_cells lv s \<and> 0 \<le> e" if ew: "(e, w) \<in> set es" for e w
    proof -
      obtain d wa wb where w: "w \<notin> walls lv" and d: "(w, d) \<in> set (adj_points u)"
        and wa: "weight lv u = Some wa" and wb: "weight lv w = Some wb"
        and e: "e = d * (wb + wa) / 2"
        using navigation_edges_mem [OF es, of e w] ew by blast
      have "0 < wa" and "0 < wb" using assms(1) wa wb unfolding wf_grid_def by blast+
      moreover have "0 < d" using d by (rule adj_points_pos)
      ultimately have "0 \<le> e" unfolding e by simp
      then show ?thesis using w wb unfolding grid_cells_def by simp
    qed
    then show ?thesis using es by blast
  qed
qed

text \<open>A finite level with positive weights in which every cell outside the walls has a weight
  is well formed.\<close>

lemma all_weighted_wf_grid:
  assumes "finite (dom (spaces lv))" and "finite (dom (waypoints lv))"
    and "\<forall>c w. weight lv c = Some w \<longrightarrow> 0 < w"
    and "\<forall>c. c \<notin> walls lv \<longrightarrow> weight lv c \<noteq> None"
  shows "wf_grid lv"
  using assms unfolding wf_grid_def by blast

subsection \<open>Walks and summed edge costs\<close>

lemma find_snd_distinct:
  assumes "distinct (map snd es)"
  shows "find (\<lambda>e. snd e = v) es = Some x \<longleftrightarrow> x \<in> set es \<and> snd x = v"
  using assms
proof (induction es)
  case Nil
  show ?case by simp
next
  case (Cons y es)
  then show ?case by (cases "snd y = v") (auto simp: rev_image_eqI)
qed

lemma edge_cost_iff:
  assumes "\<And>es. adj g u = Inr es \<Longrightarrow> distinct (map snd es)"
  shows "edge_cost adj g u v = Some c \<longleftrightarrow> (c, v) \<in> edges adj g u"
proof (cases "adj g u")
  case (Inl e)
  then show ?thesis by (simp add: edge_cost_def edges_def)
next
  case (Inr es)
  have fd: "find (\<lambda>e. snd e = v) es = Some x \<longleftrightarrow> x \<in> set es \<and> snd x = v" for x
    by (rule find_snd_distinct [OF assms [OF Inr]])
  have ec: "edge_cost adj g u v = map_option fst (find (\<lambda>e. snd e = v) es)"
    using Inr by (simp add: edge_cost_def)
  have ed: "edges adj g u = set es" using Inr by (simp add: edges_def)
  show ?thesis
  proof
    assume "edge_cost adj g u v = Some c"
    then obtain x where x: "find (\<lambda>e. snd e = v) es = Some x" "fst x = c"
      unfolding ec by (cases "find (\<lambda>e. snd e = v) es") simp_all
    then have "x \<in> set es" and "snd x = v" using fd by blast+
    moreover have "x = (c, v)" using x(2) \<open>snd x = v\<close> by (cases x) simp
    ultimately show "(c, v) \<in> edges adj g u" unfolding ed by simp
  next
    assume "(c, v) \<in> edges adj g u"
    then have "find (\<lambda>e. snd e = v) es = Some (c, v)" unfolding ed using fd [of "(c, v)"] by simp
    then show "edge_cost adj g u v = Some c" unfolding ec by simp
  qed
qed

lemma path_cost_snoc:
  "ns \<noteq> [] \<Longrightarrow>
   path_cost adj g (ns @ [w]) =
     (case path_cost adj g ns of
        None \<Rightarrow> None
      | Some k \<Rightarrow> (case edge_cost adj g (last ns) w of None \<Rightarrow> None | Some e \<Rightarrow> Some (k + e)))"
proof (induction adj g ns rule: path_cost.induct)
  case (1 adj g)
  then show ?case by simp
next
  case (2 adj g u)
  show ?case by (simp split: option.splits)
next
  case (3 adj g u v rest)
  then show ?case by (simp split: option.splits)
qed

lemma walk_path_cost:
  assumes "\<And>u es. adj g u = Inr es \<Longrightarrow> distinct (map snd es)"
  shows "walk adj g s ns k \<longleftrightarrow> ns \<noteq> [] \<and> hd ns = s \<and> path_cost adj g ns = Some k"
proof
  assume "walk adj g s ns k"
  then show "ns \<noteq> [] \<and> hd ns = s \<and> path_cost adj g ns = Some k"
  proof (induction rule: walk.induct)
    case walk_start
    show ?case by simp
  next
    case (walk_step ns c e w)
    have "edge_cost adj g (last ns) w = Some e"
      using edge_cost_iff [of adj g "last ns" w e] assms walk_step.hyps(2) by blast
    then show ?case using walk_step.IH by (simp add: path_cost_snoc)
  qed
next
  assume a: "ns \<noteq> [] \<and> hd ns = s \<and> path_cost adj g ns = Some k"
  then have "ns \<noteq> []" and "path_cost adj g ns = Some k" by simp_all
  then have "walk adj g (hd ns) ns k"
  proof (induction ns arbitrary: k rule: rev_nonempty_induct)
    case (single u)
    then show ?case using walk.walk_start [of adj g u] by simp
  next
    case (snoc w ns)
    obtain k' e where k': "path_cost adj g ns = Some k'"
      and e: "edge_cost adj g (last ns) w = Some e" and k: "k = k' + e"
      using snoc.prems(1) snoc.hyps(1) by (auto simp: path_cost_snoc split: option.splits)
    have "walk adj g (hd ns) ns k'" using snoc.IH [OF k'] by simp
    moreover have "(e, w) \<in> edges adj g (last ns)"
      using edge_cost_iff [of adj g "last ns" w e] assms e by blast
    ultimately have "walk adj g (hd ns) (ns @ [w]) (k' + e)" by (rule walk.walk_step)
    then show ?case using snoc.hyps(1) k by simp
  qed
  then show "walk adj g s ns k" using a by simp
qed

lemma walk_Cons:
  assumes "walk adj g u ms k" and "(e, u) \<in> edges adj g w"
  shows "walk adj g w (w # ms) (e + k)"
  using assms(1)
proof (induction rule: walk.induct)
  case walk_start
  have "walk adj g w [w] 0" by (rule walk.walk_start)
  moreover have "(e, u) \<in> edges adj g (last [w])" using assms(2) by simp
  ultimately have "walk adj g w ([w] @ [u]) (0 + e)" by (rule walk.walk_step)
  then show ?case by simp
next
  case (walk_step ms c e' x)
  have "ms \<noteq> []" using walk_hd [OF walk_step.hyps(1)] by simp
  then have "(e', x) \<in> edges adj g (last (w # ms))" using walk_step.hyps(2) by simp
  with walk_step.IH have "walk adj g w ((w # ms) @ [x]) ((e + c) + e')" by (rule walk.walk_step)
  then show ?case by (simp add: add.assoc)
qed

lemma walk_rev:
  assumes "\<And>u e w. u \<in> N \<Longrightarrow> (e, w) \<in> edges adj g u \<Longrightarrow> w \<in> N \<and> (e, u) \<in> edges adj g w"
    and "s \<in> N" and "walk adj g s ns k"
  shows "last ns \<in> N \<and> walk adj g (last ns) (rev ns) k"
  using assms(3)
proof (induction rule: walk.induct)
  case walk_start
  show ?case using assms(2) walk.walk_start [of adj g s] by simp
next
  case (walk_step ns c e w)
  have "w \<in> N" and "(e, last ns) \<in> edges adj g w"
    using assms(1) [of "last ns" e w] walk_step.IH walk_step.hyps(2) by blast+
  moreover have "walk adj g (last ns) (rev ns) c" using walk_step.IH by simp
  ultimately show ?case using walk_Cons [of adj g "last ns" "rev ns" c e w] by (simp add: add.commute)
qed

lemma good_navigation_sym:
  assumes "good navigation_edges lv N" and "u \<in> N" and "(e, w) \<in> edges navigation_edges lv u"
  shows "w \<in> N \<and> (e, u) \<in> edges navigation_edges lv w"
proof -
  obtain es where es: "navigation_edges lv u = Inr es" using assms(1,2) unfolding good_def by blast
  then have ew: "(e, w) \<in> set es" using assms(3) by (simp add: edges_def)
  have wN: "w \<in> N" using good_edge(1) [OF assms(1,2) es ew] .
  then obtain es' where es': "navigation_edges lv w = Inr es'"
    using assms(1) unfolding good_def by blast
  have "(e, u) \<in> set es'" by (rule navigation_edges_sym [OF es ew es'])
  then show ?thesis using wN es' by (simp add: edges_def)
qed

lemma walk_last_not_wall:
  assumes "walk navigation_edges lv s ns k" and "last ns \<noteq> s"
  shows "last ns \<notin> walls lv"
  using assms
proof (cases rule: walk.cases)
  case walk_start
  then show ?thesis using assms(2) by simp
next
  case (walk_step ms c e w)
  then obtain es where "navigation_edges lv (last ms) = Inr es" and "(e, w) \<in> set es"
    by (cases "navigation_edges lv (last ms)") (auto simp: edges_def)
  then have "w \<notin> walls lv" using navigation_edges_mem [of lv "last ms" es e w] by blast
  then show ?thesis using walk_step(1) by simp
qed

text \<open>On a graph without negative costs whose edges can be walked both ways, with one edge
  between two cells at most, the list the search returns is a cheapest path, read either way.\<close>

lemma good_path_result:
  assumes "good navigation_edges lv N" and "s \<in> N"
  shows "(\<exists>p c. dijkstras_shortest_path s d lv navigation_edges = Some (Inr (Some p)) \<and>
            p \<noteq> [] \<and> hd p = d \<and> last p = s \<and>
            path_cost navigation_edges lv p = Some c \<and>
            path_cost navigation_edges lv (rev p) = Some c \<and>
            (\<forall>q k. path_cost navigation_edges lv q = Some k \<longrightarrow> hd q = s \<longrightarrow> last q = d \<longrightarrow> c \<le> k)) \<or>
         (dijkstras_shortest_path s d lv navigation_edges = Some (Inr None) \<and>
            (\<forall>q k. path_cost navigation_edges lv q = Some k \<longrightarrow> hd q = s \<longrightarrow> last q \<noteq> d))"
proof -
  have wp: "walk navigation_edges lv s' ns k \<longleftrightarrow>
      ns \<noteq> [] \<and> hd ns = s' \<and> path_cost navigation_edges lv ns = Some k" for s' ns k
    by (rule walk_path_cost) (rule navigation_edges_distinct)
  from good_shortest_path [OF assms, of d]
  show ?thesis
  proof
    assume "\<exists>p k. dijkstras_shortest_path s d lv navigation_edges = Some (Inr (Some p)) \<and>
              shortest_walk navigation_edges lv s d (rev p) k"
    then obtain p c where run: "dijkstras_shortest_path s d lv navigation_edges = Some (Inr (Some p))"
      and sw: "shortest_walk navigation_edges lv s d (rev p) c"
      by blast
    have w: "walk navigation_edges lv s (rev p) c" and l: "last (rev p) = d"
      and opt: "\<forall>ns' k'. walk navigation_edges lv s ns' k' \<longrightarrow> last ns' = d \<longrightarrow> c \<le> k'"
      using sw unfolding shortest_walk_def by blast+
    have ne: "rev p \<noteq> []" and h: "hd (rev p) = s" and pc: "path_cost navigation_edges lv (rev p) = Some c"
      using w wp by blast+
    have p: "p \<noteq> []" using ne by simp
    then have hd: "hd p = d" and last: "last p = s" using l h by (simp_all add: last_rev hd_rev)
    have "walk navigation_edges lv (last (rev p)) (rev (rev p)) c"
      using walk_rev [of N navigation_edges lv s "rev p" c] good_navigation_sym [OF assms(1)]
        assms(2) w by blast
    then have pc': "path_cost navigation_edges lv p = Some c" using wp by simp
    have "c \<le> k" if q: "path_cost navigation_edges lv q = Some k" "hd q = s" "last q = d" for q k
    proof -
      have "q \<noteq> []" using q(1) by auto
      then have "walk navigation_edges lv s q k" using wp q(1,2) by blast
      then show ?thesis using opt q(3) by blast
    qed
    then show ?thesis using run p hd last pc pc' by blast
  next
    assume a: "dijkstras_shortest_path s d lv navigation_edges = Some (Inr None) \<and>
              (\<forall>ns k. walk navigation_edges lv s ns k \<longrightarrow> last ns \<noteq> d)"
    have "last q \<noteq> d" if q: "path_cost navigation_edges lv q = Some k" "hd q = s" for q k
    proof -
      have "q \<noteq> []" using q(1) by auto
      then have "walk navigation_edges lv s q k" using wp q by blast
      then show ?thesis using a by blast
    qed
    then show ?thesis using a by blast
  qed
qed

subsection \<open>The cost table of a level\<close>

lemma to_all_good:
  assumes "dijkstras_shortest_path_to_all s lv navigation_edges = Some (Inr M)"
  shows "good navigation_edges lv (dom M)" and "s \<in> dom M"
proof -
  have bi: "basic_inv navigation_edges lv s M []" by (rule to_all_result [OF assms])
  then have cl: "closed_inv navigation_edges lv M []" and fin: "finite (dom M)"
    unfolding basic_inv_def by simp_all
  show "s \<in> dom M" using basic_inv_final(1) [OF bi] by blast
  have rel: "relaxed navigation_edges lv M v" if "v \<in> dom M" for v
    using cl that unfolding closed_inv_def by fastforce
  have "\<exists>es. navigation_edges lv u = Inr es \<and> (\<forall>e w. (e, w) \<in> set es \<longrightarrow> w \<in> dom M \<and> 0 \<le> e)"
    if uM: "u \<in> dom M" for u
  proof -
    obtain cu es where cu: "M u = Some cu" and es: "navigation_edges lv u = Inr es"
      and r: "\<forall>e w. (e, w) \<in> set es \<longrightarrow> (\<exists>cw. M w = Some cw \<and> cw \<le> cu + e)"
      using rel [OF uM] unfolding relaxed_def by blast
    have "w \<in> dom M \<and> 0 \<le> e" if ew: "(e, w) \<in> set es" for e w
    proof -
      obtain cw where cw: "M w = Some cw" "cw \<le> cu + e" using r ew by blast
      then have wM: "w \<in> dom M" by blast
      obtain cw' es' where cw': "M w = Some cw'" and es': "navigation_edges lv w = Inr es'"
        and r': "\<forall>e u. (e, u) \<in> set es' \<longrightarrow> (\<exists>c. M u = Some c \<and> c \<le> cw' + e)"
        using rel [OF wM] unfolding relaxed_def by blast
      have "(e, u) \<in> set es'" by (rule navigation_edges_sym [OF es ew es'])
      then obtain c where "M u = Some c" "c \<le> cw' + e" using r' by blast
      then have "cu \<le> cw + e" using cu cw(1) cw' by simp
      then show ?thesis using cw(2) wM by simp
    qed
    then show ?thesis using es by blast
  qed
  then show "good navigation_edges lv (dom M)" unfolding good_def using fin by blast
qed

subsection \<open>Returning \<open>None\<close>\<close>

lemma dsp_step_unfold:
  assumes "dsp_step adj g d (T, Q) (T', Q')"
  shows "dsp_loop adj g d T Q = dsp_loop adj g d T' Q'"
  using assms
proof (cases rule: dsp_step.cases)
  case (1 es)
  then show ?thesis by (subst dsp_loop.simps) (simp add: Let_def)
qed

lemma dsp_steps_None:
  assumes "(dsp_step adj g d)\<^sup>*\<^sup>* (T, Q) (T', [])"
  shows "dsp_loop adj g d T Q = Some (Inr None)"
  using assms
proof (induction rule: converse_rtranclp_induct2)
  case refl
  show ?case by (subst dsp_loop.simps) simp
next
  case (step T Q T1 Q1)
  then show ?case using dsp_step_unfold [of adj g d T Q T1 Q1] by simp
qed

lemma dsp_None_steps:
  assumes "dsp_loop adj g d T Q = Some r"
  shows "r = Inr None \<longrightarrow> (\<exists>T'. (dsp_step adj g d)\<^sup>*\<^sup>* (T, Q) (T', []))"
proof (rule dsp_loop.raw_induct [OF _ assms,
        where P = "\<lambda>adj g d T Q r. r = Inr None \<longrightarrow> (\<exists>T'. (dsp_step adj g d)\<^sup>*\<^sup>* (T, Q) (T', []))"])
  fix loop :: "('g \<Rightarrow> cell \<Rightarrow> error + (real \<times> cell) list) \<Rightarrow> 'g \<Rightarrow> cell \<Rightarrow> tracking \<Rightarrow> queue
      \<Rightarrow> (error + cell list option) option"
  fix adj :: "'g \<Rightarrow> cell \<Rightarrow> error + (real \<times> cell) list" and g :: 'g and d :: cell
    and T :: tracking and Q :: queue and r :: "error + cell list option"
  assume IH: "\<And>adj g d T Q r. loop adj g d T Q = Some r \<Longrightarrow>
      r = Inr None \<longrightarrow> (\<exists>T'. (dsp_step adj g d)\<^sup>*\<^sup>* (T, Q) (T', []))"
  assume body: "(if Q = [] then Some (Inr None)
      else let currNode = snd (fst (heappop Q)); queue1 = snd (heappop Q)
           in if currNode = d then map_option (map_sum id Some) (reconstruct T currNode [])
              else case adj g currNode of Inl e \<Rightarrow> Some (Inl e)
                   | Inr es \<Rightarrow>
                       (case relax currNode es T queue1 of Inl e \<Rightarrow> Some (Inl e)
                        | Inr tq \<Rightarrow> loop adj g d (fst tq) (snd tq))) = Some r"
  show "r = Inr None \<longrightarrow> (\<exists>T'. (dsp_step adj g d)\<^sup>*\<^sup>* (T, Q) (T', []))"
  proof
    assume r: "r = Inr None"
    show "\<exists>T'. (dsp_step adj g d)\<^sup>*\<^sup>* (T, Q) (T', [])"
    proof (cases "Q = []")
      case True
      then show ?thesis by blast
    next
      case False
      let ?u = "snd (fst (heappop Q))"
      have ud: "?u \<noteq> d"
      proof
        assume "?u = d"
        then have "map_option (map_sum id Some) (reconstruct T d []) = Some (Inr None)"
          using body False r by (simp add: Let_def)
        then show False by (cases "reconstruct T d []") (auto simp: map_sum_def split: sum.splits)
      qed
      then have body1: "(case adj g ?u of Inl e \<Rightarrow> Some (Inl e)
                   | Inr es \<Rightarrow>
                       (case relax ?u es T (snd (heappop Q)) of Inl e \<Rightarrow> Some (Inl e)
                        | Inr tq \<Rightarrow> loop adj g d (fst tq) (snd tq))) = Some r"
        using body False by (simp add: Let_def)
      obtain es where es: "adj g ?u = Inr es" using body1 r by (cases "adj g ?u") auto
      have body2: "(case relax ?u es T (snd (heappop Q)) of Inl e \<Rightarrow> Some (Inl e)
                        | Inr tq \<Rightarrow> loop adj g d (fst tq) (snd tq)) = Some r"
        using body1 es by simp
      obtain T1 Q1 where run: "relax ?u es T (snd (heappop Q)) = Inr (T1, Q1)"
        using body2 r by (cases "relax ?u es T (snd (heappop Q))") auto
      have rec: "loop adj g d T1 Q1 = Some r" using body2 run by simp
      obtain T' where rest: "(dsp_step adj g d)\<^sup>*\<^sup>* (T1, Q1) (T', [])" using IH [OF rec] r by blast
      have "dsp_step adj g d (T, Q) (T1, Q1)" using False ud es run by (rule dsp_step.intros)
      then have "(dsp_step adj g d)\<^sup>*\<^sup>* (T, Q) (T', [])" using rest by (rule converse_rtranclp_into_rtranclp)
      then show ?thesis by blast
    qed
  qed
qed

subsection \<open>Searches on the example levels\<close>

lemma corridor_wf: "wf_grid corridor"
proof -
  have w: "c = (0, 0) \<or> c = (1, 0)" if "weight corridor c \<noteq> None" for c
    using that by (cases "c = (0, 0)"; cases "c = (1, 0)") (simp_all add: corridor_def weight_def)
  have 1: "finite (dom (spaces corridor))" and 2: "finite (dom (waypoints corridor))"
    by (simp_all add: corridor_def)
  have 3: "0 < x" if "weight corridor c = Some x" for c x
    using that by (cases "c = (0, 0)"; cases "c = (1, 0)") (simp_all add: corridor_def weight_def)
  have a0: "map fst (adj_points (0, 0)) =
      [(-1, -1), (-1, 0), (0, -1), (-1, 1), (1, -1), (1, 0), (0, 1), (1, 1)]"
    and a1: "map fst (adj_points (1, 0)) =
      [(0, -1), (0, 0), (1, -1), (0, 1), (2, -1), (2, 0), (1, 1), (2, 1)]"
    by (simp_all add: adj_points_def adj_offsets_def)
  have b0: "\<forall>p \<in> set (map fst (adj_points (0, 0))). p \<in> walls corridor \<or> weight corridor p \<noteq> None"
    unfolding a0 by (simp add: corridor_def weight_def)
  have b1: "\<forall>p \<in> set (map fst (adj_points (1, 0))). p \<in> walls corridor \<or> weight corridor p \<noteq> None"
    unfolding a1 by (simp add: corridor_def weight_def)
  have 4: "p \<in> walls corridor \<or> weight corridor p \<noteq> None"
    if c: "weight corridor c \<noteq> None" and pd: "(p, d) \<in> set (adj_points c)" for c p d
  proof -
    have "p \<in> set (map fst (adj_points c))" using pd by force
    then show ?thesis using w [OF c] b0 b1 by blast
  qed
  show ?thesis unfolding wf_grid_def using 1 2 3 4 by blast
qed

lemma corridor_path: "path_cost navigation_edges corridor [(0, 0), (1, 0)] = Some 2"
  by (simp add: edge_cost_def corridor_edges_00)

lemma corridor_to_all:
  "dijkstras_shortest_path_to_all (0, 0) corridor navigation_edges =
     Some (Inr [(0, 0) \<mapsto> 0, (1, 0) \<mapsto> 2])"
  by (simp add: dijkstras_shortest_path_to_all_def dsa_loop.simps heappop_def heappush_def
      corridor_edges_00 corridor_edges_10 Let_def)

lemma to_all_from_wall:
  "s \<in> walls lv \<Longrightarrow> dijkstras_shortest_path_to_all s lv navigation_edges = Some (Inr [s \<mapsto> 0])"
  by (simp add: dijkstras_shortest_path_to_all_def dsa_loop.simps heappop_def navigation_edges_def)

lemma leaky_edges_00: "navigation_edges leaky (0, 0) = Inr [(2, (1, 0))]"
  by (simp add: navigation_edges_def leaky_def corridor_def adj_points_def adj_offsets_def weight_def)

lemma leaky_edges_10: "navigation_edges leaky (1, 0) = Inl TypeError"
  by (simp add: navigation_edges_def leaky_def corridor_def adj_points_def adj_offsets_def weight_def)

lemma leaky_search:
  "dijkstras_shortest_path (0, 0) (0, 1) leaky navigation_edges = Some (Inl TypeError)"
  by (simp add: dijkstras_shortest_path_def dsp_loop.simps heappop_def heappush_def
      leaky_edges_00 leaky_edges_10 Let_def)

lemma field3_weighted:
  "weight field3 c = Some x \<Longrightarrow>
   x = 1 \<and> c \<in> {(0, 0), (1, 0), (2, 0), (0, 1), (1, 1), (2, 1), (0, 2), (1, 2), (2, 2)}"
  by (simp add: field3_def weight_def split: if_splits)

lemma field3_closed:
  assumes "c \<in> {(0, 0), (1, 0), (2, 0), (0, 1), (1, 1), (2, 1), (0, 2), (1, 2), (2, 2)}"
  shows "\<forall>p \<in> set (map fst (adj_points c)). p \<in> walls field3 \<or> weight field3 p \<noteq> None"
proof -
  have "\<forall>c \<in> {(0, 0), (1, 0), (2, 0), (0, 1), (1, 1), (2, 1), (0, 2), (1, 2), (2, 2)}.
      \<forall>p \<in> set (map fst (adj_points c)). p \<in> walls field3 \<or> weight field3 p \<noteq> None"
    by (simp add: adj_points_def adj_offsets_def field3_def weight_def)
  then show ?thesis using assms by blast
qed

lemma field3_wf: "wf_grid field3"
proof -
  have 1: "finite (dom (spaces field3))" and 2: "finite (dom (waypoints field3))"
    by (simp_all add: field3_def)
  have 3: "0 < x" if "weight field3 c = Some x" for c x
    using field3_weighted [OF that] by simp
  have 4: "p \<in> walls field3 \<or> weight field3 p \<noteq> None"
    if c: "weight field3 c \<noteq> None" and pd: "(p, d) \<in> set (adj_points c)" for c p d
  proof -
    obtain x where "weight field3 c = Some x" using c by blast
    then have "c \<in> {(0, 0), (1, 0), (2, 0), (0, 1), (1, 1), (2, 1), (0, 2), (1, 2), (2, 2)}"
      using field3_weighted by blast
    moreover have "p \<in> set (map fst (adj_points c))" using pd by force
    ultimately show ?thesis using field3_closed by blast
  qed
  show ?thesis unfolding wf_grid_def using 1 2 3 4 by blast
qed

lemma field3_path:
  "path_cost navigation_edges field3 [(0, 0), (1, 1), (2, 2)] = Some (diag + diag)"
  by (simp add: edge_cost_def field3_edges_00 field3_edges_11)

section \<open>Claims that hold on every graph\<close>

text \<open>
  C4.  For every graph, adjacency function and cell \<open>s\<close>, the search from \<open>s\<close> to \<open>s\<close>
  returns the one-element list \<open>[s]\<close>, whose summed edge cost is 0: the start is the first
  entry popped, it is the destination, and its predecessor is \<open>None\<close>.
\<close>

theorem shortest_path_to_self:
  "dijkstras_shortest_path s s graph adj = Some (Inr (Some [s])) \<and>
   path_cost adj graph [s] = Some 0"
  by (simp add: dijkstras_shortest_path_def dsp_loop.simps reconstruct.simps heappop_def)

text \<open>
  C10.  On every graph, a cost table returned by \<open>dijkstras_shortest_path_to_all\<close> maps the
  start cell to cost 0.  On every level, when the start cell \<open>s\<close> is in \<open>walls\<close> the call
  returns exactly the table \<open>{s: 0}\<close>.
\<close>

theorem to_all_start_zero:
  "(dijkstras_shortest_path_to_all start g adj = Some (Inr M) \<longrightarrow> M start = Some 0) \<and>
   (s \<in> walls lv \<longrightarrow>
      dijkstras_shortest_path_to_all s lv navigation_edges = Some (Inr [s \<mapsto> 0]))"
proof (intro conjI impI)
  assume "dijkstras_shortest_path_to_all start g adj = Some (Inr M)"
  then have "basic_inv adj g start M []" by (rule to_all_result)
  then show "M start = Some 0" by (rule basic_inv_final(1))
next
  assume "s \<in> walls lv"
  then show "dijkstras_shortest_path_to_all s lv navigation_edges = Some (Inr [s \<mapsto> 0])"
    by (rule to_all_from_wall)
qed

theorem to_all_start_zero_witness:
  "dijkstras_shortest_path_to_all (0, 0) corridor navigation_edges =
     Some (Inr [(0, 0) \<mapsto> 0, (1, 0) \<mapsto> 2]) \<and>
   [(0, 0) \<mapsto> 0, (1, 0) \<mapsto> (2::real)] ((0, 0) :: cell) = Some 0 \<and>
   (-1, -1) \<in> walls field3 \<and>
   dijkstras_shortest_path_to_all (-1, -1) field3 navigation_edges = Some (Inr [(-1, -1) \<mapsto> 0])"
proof -
  have h: "(-1, -1) \<in> walls field3" by (simp add: field3_def)
  note concl = to_all_start_zero [of "(0, 0)" corridor navigation_edges
      "[(0, 0) \<mapsto> 0, (1, 0) \<mapsto> 2]" "(-1, -1)" field3]
  have a: "[(0, 0) \<mapsto> 0, (1, 0) \<mapsto> (2::real)] ((0, 0) :: cell) = Some 0"
    by (rule mp [OF conjunct1 [OF concl] corridor_to_all])
  have b: "dijkstras_shortest_path_to_all (-1, -1) field3 navigation_edges =
      Some (Inr [(-1, -1) \<mapsto> 0])"
    by (rule mp [OF conjunct2 [OF concl] h])
  show ?thesis using corridor_to_all a h b by (intro conjI)
qed

section \<open>Claims about well-formed levels\<close>

text \<open>
  C9.  On a well-formed level, with a start cell that is a wall or has a weight, both
  \<open>dijkstras_shortest_path\<close> and \<open>dijkstras_shortest_path_to_all\<close> return, and neither
  raises: the main loop runs until the destination is popped or the queue is empty.
\<close>

theorem searches_terminate:
  assumes "wf_grid lv" and "start \<in> walls lv \<or> weight lv start \<noteq> None"
  shows "(\<exists>r. dijkstras_shortest_path start dest lv navigation_edges = Some (Inr r)) \<and>
         (\<exists>M. dijkstras_shortest_path_to_all start lv navigation_edges = Some (Inr M))"
proof -
  have g: "good navigation_edges lv (grid_cells lv start)" by (rule grid_good [OF assms])
  have s: "start \<in> grid_cells lv start" by (simp add: grid_cells_def)
  show ?thesis using good_shortest_path [OF g s, of dest] good_to_all [OF g s] by blast
qed

theorem searches_terminate_witness:
  "wf_grid corridor \<and> ((0, 0) \<in> walls corridor \<or> weight corridor (0, 0) \<noteq> None) \<and>
   (\<exists>r. dijkstras_shortest_path (0, 0) (1, 0) corridor navigation_edges = Some (Inr r)) \<and>
   (\<exists>M. dijkstras_shortest_path_to_all (0, 0) corridor navigation_edges = Some (Inr M))"
proof -
  have h: "(0, 0) \<in> walls corridor \<or> weight corridor (0, 0) \<noteq> None"
    by (simp add: corridor_def weight_def)
  show ?thesis using searches_terminate [OF corridor_wf h, of "(1, 0)"] corridor_wf h by blast
qed

text \<open>
  C1.  On a well-formed level, with a start cell that is a wall or has a weight, if some path
  \<open>q\<close> leads from start to destination, then \<open>dijkstras_shortest_path\<close> returns a list
  \<open>p\<close> of cells whose summed edge cost \<open>c\<close> is minimal: \<open>p\<close> read backwards is a path from
  start to destination, \<open>p\<close> costs \<open>c\<close> read either way, and no path from start to destination
  costs less than \<open>c\<close>.
\<close>

theorem shortest_path_minimal:
  assumes "wf_grid lv" and "start \<in> walls lv \<or> weight lv start \<noteq> None"
    and "path_cost navigation_edges lv q = Some k" and "hd q = start" and "last q = dest"
  shows "\<exists>p c. dijkstras_shortest_path start dest lv navigation_edges = Some (Inr (Some p)) \<and>
           path_cost navigation_edges lv p = Some c \<and>
           path_cost navigation_edges lv (rev p) = Some c \<and>
           hd (rev p) = start \<and> last (rev p) = dest \<and>
           (\<forall>q' k'. path_cost navigation_edges lv q' = Some k' \<longrightarrow> hd q' = start \<longrightarrow>
              last q' = dest \<longrightarrow> c \<le> k')"
proof -
  have g: "good navigation_edges lv (grid_cells lv start)" by (rule grid_good [OF assms(1,2)])
  have s: "start \<in> grid_cells lv start" by (simp add: grid_cells_def)
  from good_path_result [OF g s, of dest]
  show ?thesis
  proof
    assume "\<exists>p c. dijkstras_shortest_path start dest lv navigation_edges = Some (Inr (Some p)) \<and>
        p \<noteq> [] \<and> hd p = dest \<and> last p = start \<and>
        path_cost navigation_edges lv p = Some c \<and>
        path_cost navigation_edges lv (rev p) = Some c \<and>
        (\<forall>q k. path_cost navigation_edges lv q = Some k \<longrightarrow> hd q = start \<longrightarrow> last q = dest \<longrightarrow> c \<le> k)"
    then obtain p c where
      "dijkstras_shortest_path start dest lv navigation_edges = Some (Inr (Some p))"
      and p: "p \<noteq> []" "hd p = dest" "last p = start"
      and "path_cost navigation_edges lv p = Some c"
      and "path_cost navigation_edges lv (rev p) = Some c"
      and "\<forall>q k. path_cost navigation_edges lv q = Some k \<longrightarrow> hd q = start \<longrightarrow> last q = dest \<longrightarrow> c \<le> k"
      by blast
    moreover have "hd (rev p) = start" and "last (rev p) = dest"
      using p by (simp_all add: hd_rev last_rev)
    ultimately show ?thesis by blast
  next
    assume "dijkstras_shortest_path start dest lv navigation_edges = Some (Inr None) \<and>
        (\<forall>q k. path_cost navigation_edges lv q = Some k \<longrightarrow> hd q = start \<longrightarrow> last q \<noteq> dest)"
    then have False using assms(3,4,5) by blast
    then show ?thesis ..
  qed
qed

theorem shortest_path_minimal_witness:
  "wf_grid field3 \<and> ((0, 0) \<in> walls field3 \<or> weight field3 (0, 0) \<noteq> None) \<and>
   path_cost navigation_edges field3 [(0, 0), (1, 1), (2, 2)] = Some (diag + diag) \<and>
   hd [(0, 0), (1, 1), (2, 2)] = ((0, 0) :: cell) \<and>
   last [(0, 0), (1, 1), (2, 2)] = ((2, 2) :: cell) \<and>
   (\<exists>p c. dijkstras_shortest_path (0, 0) (2, 2) field3 navigation_edges = Some (Inr (Some p)) \<and>
      path_cost navigation_edges field3 p = Some c \<and>
      path_cost navigation_edges field3 (rev p) = Some c \<and>
      hd (rev p) = (0, 0) \<and> last (rev p) = (2, 2) \<and>
      (\<forall>q' k'. path_cost navigation_edges field3 q' = Some k' \<longrightarrow> hd q' = (0, 0) \<longrightarrow>
         last q' = (2, 2) \<longrightarrow> c \<le> k'))"
proof -
  have h2: "(0, 0) \<in> walls field3 \<or> weight field3 (0, 0) \<noteq> None"
    by (simp add: field3_def weight_def)
  have h4: "hd [(0, 0), (1, 1), (2, 2)] = ((0, 0) :: cell)"
    and h5: "last [(0, 0), (1, 1), (2, 2)] = ((2, 2) :: cell)"
    by simp_all
  note concl = shortest_path_minimal [OF field3_wf h2 field3_path h4 h5]
  show ?thesis using field3_wf h2 field3_path h4 h5 concl by (intro conjI)
qed

text \<open>
  C5, as it holds on the code.  On every graph, \<open>dijkstras_shortest_path\<close> returns \<open>None\<close> exactly when
  iterations that pop cells other than the destination, and raise nothing, empty the queue.
  On a well-formed level, with a start cell \<open>s\<close> that is a wall or has a weight, it returns
  \<open>None\<close> exactly when no path leads from \<open>s\<close> to the destination \<open>d\<close>; and on every level no
  path leads from \<open>s\<close> to a destination in \<open>walls\<close> other than \<open>s\<close> itself.
\<close>

theorem no_path_signal:
  "(dijkstras_shortest_path start dest g adj = Some (Inr None) \<longleftrightarrow>
      (\<exists>T. (dsp_step adj g dest)\<^sup>*\<^sup>* ([start \<mapsto> (0, None)], [(0, start)]) (T, []))) \<and>
   (wf_grid lv \<longrightarrow> (s \<in> walls lv \<or> weight lv s \<noteq> None) \<longrightarrow>
      (dijkstras_shortest_path s d lv navigation_edges = Some (Inr None) \<longleftrightarrow>
         \<not> (\<exists>q k. path_cost navigation_edges lv q = Some k \<and> hd q = s \<and> last q = d))) \<and>
   (d \<in> walls lv \<longrightarrow> d \<noteq> s \<longrightarrow>
      \<not> (\<exists>q k. path_cost navigation_edges lv q = Some k \<and> hd q = s \<and> last q = d))"
proof (intro conjI impI)
  show "dijkstras_shortest_path start dest g adj = Some (Inr None) \<longleftrightarrow>
      (\<exists>T. (dsp_step adj g dest)\<^sup>*\<^sup>* ([start \<mapsto> (0, None)], [(0, start)]) (T, []))"
    unfolding dijkstras_shortest_path_def
    using dsp_None_steps [of adj g dest "[start \<mapsto> (0, None)]" "[(0, start)]" "Inr None"]
      dsp_steps_None [of adj g dest "[start \<mapsto> (0, None)]" "[(0, start)]"]
    by blast
next
  assume wf: "wf_grid lv" and ok: "s \<in> walls lv \<or> weight lv s \<noteq> None"
  have g: "good navigation_edges lv (grid_cells lv s)" by (rule grid_good [OF wf ok])
  have sN: "s \<in> grid_cells lv s" by (simp add: grid_cells_def)
  from good_path_result [OF g sN, of d]
  show "dijkstras_shortest_path s d lv navigation_edges = Some (Inr None) \<longleftrightarrow>
      \<not> (\<exists>q k. path_cost navigation_edges lv q = Some k \<and> hd q = s \<and> last q = d)"
  proof
    assume "\<exists>p c. dijkstras_shortest_path s d lv navigation_edges = Some (Inr (Some p)) \<and>
        p \<noteq> [] \<and> hd p = d \<and> last p = s \<and>
        path_cost navigation_edges lv p = Some c \<and>
        path_cost navigation_edges lv (rev p) = Some c \<and>
        (\<forall>q k. path_cost navigation_edges lv q = Some k \<longrightarrow> hd q = s \<longrightarrow> last q = d \<longrightarrow> c \<le> k)"
    then obtain p c where run: "dijkstras_shortest_path s d lv navigation_edges = Some (Inr (Some p))"
      and p: "p \<noteq> []" "hd p = d" "last p = s"
      and pc: "path_cost navigation_edges lv (rev p) = Some c"
      by blast
    have "hd (rev p) = s" and "last (rev p) = d" using p by (simp_all add: hd_rev last_rev)
    then have "\<exists>q k. path_cost navigation_edges lv q = Some k \<and> hd q = s \<and> last q = d"
      using pc by blast
    then show ?thesis using run by simp
  next
    assume "dijkstras_shortest_path s d lv navigation_edges = Some (Inr None) \<and>
        (\<forall>q k. path_cost navigation_edges lv q = Some k \<longrightarrow> hd q = s \<longrightarrow> last q \<noteq> d)"
    then show ?thesis by blast
  qed
next
  assume dw: "d \<in> walls lv" and ds: "d \<noteq> s"
  show "\<not> (\<exists>q k. path_cost navigation_edges lv q = Some k \<and> hd q = s \<and> last q = d)"
  proof
    assume "\<exists>q k. path_cost navigation_edges lv q = Some k \<and> hd q = s \<and> last q = d"
    then obtain q k where q: "path_cost navigation_edges lv q = Some k" "hd q = s" "last q = d"
      by blast
    have "q \<noteq> []" using q(1) by auto
    then have "walk navigation_edges lv s q k"
      using walk_path_cost [of navigation_edges lv s q k] navigation_edges_distinct q(1,2) by blast
    then show False using walk_last_not_wall [of lv s q k] q(3) dw ds by simp
  qed
qed

theorem no_path_signal_witness:
  "wf_grid corridor \<and> ((0, 0) \<in> walls corridor \<or> weight corridor (0, 0) \<noteq> None) \<and>
   (0, 1) \<in> walls corridor \<and> (0, 1) \<noteq> ((0, 0) :: cell) \<and>
   dijkstras_shortest_path (0, 0) (0, 1) corridor navigation_edges = Some (Inr None) \<and>
   (\<exists>T. (dsp_step navigation_edges corridor (0, 1))\<^sup>*\<^sup>*
          ([(0, 0) \<mapsto> (0, None)], [(0, (0, 0))]) (T, [])) \<and>
   \<not> (\<exists>q k. path_cost navigation_edges corridor q = Some k \<and> hd q = (0, 0) \<and> last q = (0, 1))"
proof -
  have h2: "(0, 0) \<in> walls corridor \<or> weight corridor (0, 0) \<noteq> None"
    by (simp add: corridor_def weight_def)
  have h3: "(0, 1) \<in> walls corridor" by (simp add: corridor_def)
  have h4: "(0, 1) \<noteq> ((0, 0) :: cell)" by simp
  note concl = no_path_signal [of "(0, 0)" "(0, 1)" corridor navigation_edges corridor "(0, 0)" "(0, 1)"]
  have no: "\<not> (\<exists>q k. path_cost navigation_edges corridor q = Some k \<and> hd q = (0, 0) \<and> last q = (0, 1))"
    using concl h3 h4 by blast
  then have run: "dijkstras_shortest_path (0, 0) (0, 1) corridor navigation_edges = Some (Inr None)"
    using concl corridor_wf h2 by blast
  then have "\<exists>T. (dsp_step navigation_edges corridor (0, 1))\<^sup>*\<^sup>*
          ([(0, 0) \<mapsto> (0, None)], [(0, (0, 0))]) (T, [])"
    using concl by blast
  then show ?thesis using corridor_wf h2 h3 h4 run no by blast
qed

theorem no_path_signal_counterexample:
  "(-1, -1) \<in> walls field3 \<and>
   dijkstras_shortest_path (-1, -1) (-1, -1) field3 navigation_edges = Some (Inr (Some [(-1, -1)])) \<and>
   (0, 1) \<in> walls leaky \<and> (0, 1) \<noteq> ((0, 0) :: cell) \<and>
   dijkstras_shortest_path (0, 0) (0, 1) leaky navigation_edges = Some (Inl TypeError)"
proof -
  have "(-1, -1) \<in> walls field3" by (simp add: field3_def)
  moreover have "dijkstras_shortest_path (-1, -1) (-1, -1) field3 navigation_edges =
      Some (Inr (Some [(-1, -1)]))"
    by (simp add: dijkstras_shortest_path_def dsp_loop.simps reconstruct.simps heappop_def)
  moreover have "(0, 1) \<in> walls leaky" by (simp add: leaky_def corridor_def)
  ultimately show ?thesis using leaky_search by simp
qed

section \<open>The cost table against the single-destination search\<close>

text \<open>
  C3, as it holds on the code.  On every level, if \<open>dijkstras_shortest_path_to_all\<close> returns a cost table,
  then the only cell of \<open>walls\<close> the table can hold is the start cell itself, and for every
  cell \<open>c\<close> of the table \<open>dijkstras_shortest_path\<close> from the same start to \<open>c\<close> returns a
  list of cells whose summed edge cost is the cost stored for \<open>c\<close>.
\<close>

theorem to_all_costs_agree:
  assumes "dijkstras_shortest_path_to_all start lv navigation_edges = Some (Inr M)"
  shows "(\<forall>c. M c \<noteq> None \<longrightarrow> c \<in> walls lv \<longrightarrow> c = start) \<and>
         (\<forall>c k. M c = Some k \<longrightarrow>
            (\<exists>p. dijkstras_shortest_path start c lv navigation_edges = Some (Inr (Some p)) \<and>
                 path_cost navigation_edges lv p = Some k))"
proof (intro conjI allI impI)
  have bi: "basic_inv navigation_edges lv start M []" by (rule to_all_result [OF assms])
  {
    fix c
    assume "M c \<noteq> None" and cw: "c \<in> walls lv"
    then obtain k where "M c = Some k" by blast
    then obtain ns where "walk navigation_edges lv start ns k" "last ns = c"
      using basic_inv_final(2) [OF bi] by blast
    then show "c = start" using walk_last_not_wall [of lv start ns k] cw by blast
  }
  {
    fix c k
    assume ck: "M c = Some k"
    obtain ns where ns: "walk navigation_edges lv start ns k" "last ns = c"
      using basic_inv_final(2) [OF bi ck] by blast
    then have pq: "path_cost navigation_edges lv ns = Some k" "hd ns = start"
      using walk_path_cost [of navigation_edges lv start ns k] navigation_edges_distinct by blast+
    from good_path_result [OF to_all_good [OF assms], of c]
    show "\<exists>p. dijkstras_shortest_path start c lv navigation_edges = Some (Inr (Some p)) \<and>
            path_cost navigation_edges lv p = Some k"
    proof
      assume "\<exists>p c'. dijkstras_shortest_path start c lv navigation_edges = Some (Inr (Some p)) \<and>
          p \<noteq> [] \<and> hd p = c \<and> last p = start \<and>
          path_cost navigation_edges lv p = Some c' \<and>
          path_cost navigation_edges lv (rev p) = Some c' \<and>
          (\<forall>q k. path_cost navigation_edges lv q = Some k \<longrightarrow> hd q = start \<longrightarrow> last q = c \<longrightarrow> c' \<le> k)"
      then obtain p c' where
        run: "dijkstras_shortest_path start c lv navigation_edges = Some (Inr (Some p))"
        and p: "p \<noteq> []" "hd p = c" "last p = start"
        and pc: "path_cost navigation_edges lv p = Some c'"
        and pr: "path_cost navigation_edges lv (rev p) = Some c'"
        and opt: "\<forall>q k. path_cost navigation_edges lv q = Some k \<longrightarrow> hd q = start \<longrightarrow>
                    last q = c \<longrightarrow> c' \<le> k"
        by blast
      have le1: "c' \<le> k" using opt pq ns(2) by blast
      have "rev p \<noteq> []" and "hd (rev p) = start" using p by (simp_all add: hd_rev)
      then have "walk navigation_edges lv start (rev p) c'"
        using walk_path_cost [of navigation_edges lv start "rev p" c'] navigation_edges_distinct pr
        by blast
      then obtain cv where "M (last (rev p)) = Some cv" "cv \<le> c'"
        using basic_inv_final(3) [OF bi] by blast
      moreover have "last (rev p) = c" using p by (simp add: last_rev)
      ultimately have "k \<le> c'" using ck by simp
      then have "c' = k" using le1 by simp
      then show ?thesis using run pc by blast
    next
      assume "dijkstras_shortest_path start c lv navigation_edges = Some (Inr None) \<and>
          (\<forall>q k. path_cost navigation_edges lv q = Some k \<longrightarrow> hd q = start \<longrightarrow> last q \<noteq> c)"
      then have False using pq ns(2) by blast
      then show ?thesis ..
    qed
  }
qed

theorem to_all_costs_agree_witness:
  "dijkstras_shortest_path_to_all (0, 0) corridor navigation_edges =
     Some (Inr [(0, 0) \<mapsto> 0, (1, 0) \<mapsto> 2]) \<and>
   [(0, 0) \<mapsto> 0, (1, 0) \<mapsto> (2::real)] ((1, 0) :: cell) = Some 2 \<and>
   (\<exists>p. dijkstras_shortest_path (0, 0) (1, 0) corridor navigation_edges = Some (Inr (Some p)) \<and>
        path_cost navigation_edges corridor p = Some 2)"
proof -
  have m: "[(0, 0) \<mapsto> 0, (1, 0) \<mapsto> (2::real)] ((1, 0) :: cell) = Some 2" by simp
  have "\<exists>p. dijkstras_shortest_path (0, 0) (1, 0) corridor navigation_edges = Some (Inr (Some p)) \<and>
        path_cost navigation_edges corridor p = Some 2"
    using to_all_costs_agree [OF corridor_to_all] m by blast
  then show ?thesis using corridor_to_all m by blast
qed

theorem to_all_costs_agree_counterexample:
  "dijkstras_shortest_path_to_all (-1, -1) field3 navigation_edges = Some (Inr [(-1, -1) \<mapsto> 0]) \<and>
   [(-1, -1) \<mapsto> (0::real)] ((-1, -1) :: cell) \<noteq> None \<and> (-1, -1) \<in> walls field3"
proof -
  have h: "(-1, -1) \<in> walls field3" by (simp add: field3_def)
  then show ?thesis using to_all_from_wall [OF h] by simp
qed

section \<open>The order of the returned list\<close>

lemma field3_edges_01:
  "navigation_edges field3 (0, 1) =
     Inr [(1, (0, 0)), (diag, (1, 0)), (1, (1, 1)), (1, (0, 2)), (diag, (1, 2))]"
  by (simp add: navigation_edges_def field3_def adj_points_def adj_offsets_def weight_def)

lemma field3_edges_02:
  "navigation_edges field3 (0, 2) =
     Inr [(1, (0, 1)), (diag, (1, 1)), (1, (1, 2))]"
  by (simp add: navigation_edges_def field3_def adj_points_def adj_offsets_def weight_def)

lemma field3_edges_10:
  "navigation_edges field3 (1, 0) =
     Inr [(1, (0, 0)), (diag, (0, 1)), (1, (2, 0)), (1, (1, 1)), (diag, (2, 1))]"
  by (simp add: navigation_edges_def field3_def adj_points_def adj_offsets_def weight_def)

lemma field3_edges_12:
  "navigation_edges field3 (1, 2) =
     Inr [(diag, (0, 1)), (1, (0, 2)), (1, (1, 1)), (diag, (2, 1)), (1, (2, 2))]"
  by (simp add: navigation_edges_def field3_def adj_points_def adj_offsets_def weight_def)

lemma field3_edges_20:
  "navigation_edges field3 (2, 0) =
     Inr [(1, (1, 0)), (diag, (1, 1)), (1, (2, 1))]"
  by (simp add: navigation_edges_def field3_def adj_points_def adj_offsets_def weight_def)

lemma field3_edges_21:
  "navigation_edges field3 (2, 1) =
     Inr [(diag, (1, 0)), (1, (1, 1)), (1, (2, 0)), (diag, (1, 2)), (1, (2, 2))]"
  by (simp add: navigation_edges_def field3_def adj_points_def adj_offsets_def weight_def)

lemma field3_edges_22:
  "navigation_edges field3 (2, 2) =
     Inr [(diag, (1, 1)), (1, (1, 2)), (1, (2, 1))]"
  by (simp add: navigation_edges_def field3_def adj_points_def adj_offsets_def weight_def)

lemma diag_bounds: "7 / 5 < diag" "diag < 3 / 2"
proof -
  have "(7 / 5) ^ 2 < (2::real)" by (simp add: power2_eq_square)
  then have "sqrt ((7 / 5) ^ 2) < sqrt 2" by (simp only: real_sqrt_less_iff)
  then show "7 / 5 < diag" by (simp add: diag_def)
  have "(2::real) < (3 / 2) ^ 2" by (simp add: power2_eq_square)
  then have "sqrt 2 < sqrt ((3 / 2) ^ 2)" by (simp only: real_sqrt_less_iff)
  then show "diag < 3 / 2" by (simp add: diag_def)
qed

lemma bare3_edges_00: "navigation_edges bare3 (0, 0) = Inl TypeError"
  by (simp add: navigation_edges_def field3_def bare3_def adj_points_def adj_offsets_def weight_def)

text \<open>
  C2.  The docstring of \<open>dijkstras_shortest_path\<close> promises the cells from
  \<open>initial_position\<close> to \<open>destination\<close>.  The reconstruction loop collects them from the
  destination back to the start and the list is returned as collected: on the 3 by 3 field of
  weight 1 enclosed by walls, from \<open>(0, 0)\<close> to \<open>(2, 2)\<close>, the result is
  \<open>[(2, 2), (1, 1), (0, 0)]\<close>, the diagonal route listed destination first.  On the same
  field without any wall the first expansion raises \<open>TypeError\<close>.
\<close>

theorem path_returned_destination_first:
  "dijkstras_shortest_path (0, 0) (2, 2) field3 navigation_edges =
     Some (Inr (Some [(2, 2), (1, 1), (0, 0)])) \<and>
   dijkstras_shortest_path (0, 0) (2, 2) bare3 navigation_edges = Some (Inl TypeError)"
proof
  show "dijkstras_shortest_path (0, 0) (2, 2) field3 navigation_edges =
      Some (Inr (Some [(2, 2), (1, 1), (0, 0)]))"
    using diag_bounds
    by (simp add: dijkstras_shortest_path_def dsp_loop.simps reconstruct.simps heappop_def
        heappush_def Let_def field3_edges_00 field3_edges_01 field3_edges_02 field3_edges_10
        field3_edges_11 field3_edges_12 field3_edges_20 field3_edges_21 field3_edges_22)
  show "dijkstras_shortest_path (0, 0) (2, 2) bare3 navigation_edges = Some (Inl TypeError)"
    by (simp add: dijkstras_shortest_path_def dsp_loop.simps heappop_def bare3_edges_00 Let_def)
qed

end
